theory Spec2Isabelle
  imports Main "HOL-Library.Word"
begin

section \<open>Strings and tokens\<close>

text \<open>
  A TypeScript string is a sequence of UTF-16 code units. Character literals of the
  source are written through \<open>ascii\<close>.
\<close>

type_synonym code_unit = "16 word"
type_synonym jsstring = "code_unit list"

definition ascii :: "char \<Rightarrow> code_unit" where
  "ascii c = of_char c"

definition str :: "string \<Rightarrow> jsstring" where
  "str s = map ascii s"

text \<open>\<open>s.slice(a, b)\<close> for non-negative indices.\<close>

definition slice :: "jsstring \<Rightarrow> nat \<Rightarrow> nat \<Rightarrow> jsstring" where
  "slice s a b = take (b - a) (drop a s)"

text \<open>
  types.ts: the token union. The payload of a number token is the value of the built-in
  \<open>Number(numStr)\<close>; the built-in is a parameter of the lexer, of type
  \<open>jsstring \<Rightarrow> 'n option\<close>, with \<open>None\<close> for a result on which \<open>isNaN\<close> holds.
  The payload of a \<open>value\<close> token is \<open>true\<close>, \<open>false\<close> or \<open>null\<close>.
\<close>

datatype literal = LTrue | LFalse | LNull

datatype 'n Token =
    BeginObject
  | EndObject
  | BeginArray
  | EndArray
  | NameSeparator
  | ValueSeparator
  | StringToken jsstring
  | NumberToken 'n
  | ValueToken literal

section \<open>Lexer\<close>

record Lexer =
  buffer :: jsstring
  position :: nat

definition new_Lexer :: Lexer where
  "new_Lexer = \<lparr>buffer = [], position = 0\<rparr>"

definition addChunk :: "jsstring \<Rightarrow> Lexer \<Rightarrow> Lexer" where
  "addChunk chunk lx = lx\<lparr>buffer := buffer lx @ chunk\<rparr>"

definition setPosition :: "nat \<Rightarrow> Lexer \<Rightarrow> Lexer" where
  "setPosition pos lx = lx\<lparr>position := pos\<rparr>"

text \<open>
  The regular expression \<open>/\s/\<close> of ECMAScript: tab, line feed, vertical tab, form
  feed, carriage return, space, no-break space, the Unicode space separators, the line
  and paragraph separators and the byte order mark.
\<close>

definition isWhitespace :: "code_unit \<Rightarrow> bool" where
  "isWhitespace ch \<longleftrightarrow>
     (0x09 \<le> ch \<and> ch \<le> 0x0D) \<or> ch = 0x20 \<or> ch = 0xA0 \<or> ch = 0x1680 \<or>
     (0x2000 \<le> ch \<and> ch \<le> 0x200A) \<or> ch = 0x2028 \<or> ch = 0x2029 \<or> ch = 0x202F \<or>
     ch = 0x205F \<or> ch = 0x3000 \<or> ch = 0xFEFF"

definition isDigit :: "code_unit \<Rightarrow> bool" where
  "isDigit ch \<longleftrightarrow> ascii CHR ''0'' \<le> ch \<and> ch \<le> ascii CHR ''9''"

function skipWhitespace :: "Lexer \<Rightarrow> Lexer" where
  "skipWhitespace lx =
     (if position lx < length (buffer lx) \<and> isWhitespace (buffer lx ! position lx)
      then skipWhitespace (lx\<lparr>position := position lx + 1\<rparr>)
      else lx)"
  by pat_completeness auto
termination
  by (relation "measure (\<lambda>lx. length (buffer lx) - position lx)") auto

declare skipWhitespace.simps [simp del]

definition startsWith :: "string \<Rightarrow> Lexer \<Rightarrow> bool" where
  "startsWith s lx \<longleftrightarrow>
     slice (buffer lx) (position lx) (position lx + length s) = str s"

text \<open>
  \<open>/^[0-9a-fA-F]{4}$/\<close> and \<open>String.fromCharCode(parseInt(hex, 16))\<close> on a
  string that passed the test.
\<close>

definition isHexDigit :: "code_unit \<Rightarrow> bool" where
  "isHexDigit ch \<longleftrightarrow>
     (ascii CHR ''0'' \<le> ch \<and> ch \<le> ascii CHR ''9'') \<or>
     (ascii CHR ''a'' \<le> ch \<and> ch \<le> ascii CHR ''f'') \<or>
     (ascii CHR ''A'' \<le> ch \<and> ch \<le> ascii CHR ''F'')"

definition isHex4 :: "jsstring \<Rightarrow> bool" where
  "isHex4 hex \<longleftrightarrow> length hex = 4 \<and> list_all isHexDigit hex"

definition hexValue :: "code_unit \<Rightarrow> code_unit" where
  "hexValue ch =
     (if ch \<le> ascii CHR ''9'' then ch - ascii CHR ''0''
      else if ch \<le> ascii CHR ''F'' then ch - ascii CHR ''A'' + 10
      else ch - ascii CHR ''a'' + 10)"

definition fromCharCode_parseInt16 :: "jsstring \<Rightarrow> code_unit" where
  "fromCharCode_parseInt16 hex = foldl (\<lambda>acc ch. 16 * acc + hexValue ch) 0 hex"

text \<open>
  What the \<open>switch\<close> of \<open>readString\<close> appends for an escape character other than
  \<open>u\<close>: the seven named characters, and by the \<open>default\<close> branch the character
  itself.
\<close>

definition escapeValue :: "code_unit \<Rightarrow> code_unit" where
  "escapeValue esc =
     (if esc = ascii CHR ''n'' then 0x0A
      else if esc = ascii CHR 0x22 then ascii CHR 0x22
      else if esc = ascii CHR 0x5C then ascii CHR 0x5C
      else if esc = ascii CHR ''b'' then 0x08
      else if esc = ascii CHR ''f'' then 0x0C
      else if esc = ascii CHR ''r'' then 0x0D
      else if esc = ascii CHR ''t'' then 0x09
      else esc)"

text \<open>
  The \<open>while\<close> loop of \<open>readString\<close>. The lexer's position is the loop variable; the
  result is the token (or \<open>None\<close> for \<open>null\<close>) and the lexer as the method leaves it.
\<close>

function readString_loop :: "nat \<Rightarrow> jsstring \<Rightarrow> Lexer \<Rightarrow> 'n Token option \<times> Lexer" where
  "readString_loop startPosition result lx =
     (if position lx < length (buffer lx) then
        let ch = buffer lx ! position lx in
        if ch = ascii CHR 0x5C then
          if position lx + 1 \<ge> length (buffer lx) then
            (None, lx\<lparr>position := startPosition\<rparr>)
          else
            let esc = buffer lx ! (position lx + 1) in
            if esc = ascii CHR ''n'' then
              readString_loop startPosition (result @ [0x0A]) (lx\<lparr>position := position lx + 2\<rparr>)
            else if esc = ascii CHR 0x22 then
              readString_loop startPosition (result @ [ascii CHR 0x22]) (lx\<lparr>position := position lx + 2\<rparr>)
            else if esc = ascii CHR 0x5C then
              readString_loop startPosition (result @ [ascii CHR 0x5C]) (lx\<lparr>position := position lx + 2\<rparr>)
            else if esc = ascii CHR ''b'' then
              readString_loop startPosition (result @ [0x08]) (lx\<lparr>position := position lx + 2\<rparr>)
            else if esc = ascii CHR ''f'' then
              readString_loop startPosition (result @ [0x0C]) (lx\<lparr>position := position lx + 2\<rparr>)
            else if esc = ascii CHR ''r'' then
              readString_loop startPosition (result @ [0x0D]) (lx\<lparr>position := position lx + 2\<rparr>)
            else if esc = ascii CHR ''t'' then
              readString_loop startPosition (result @ [0x09]) (lx\<lparr>position := position lx + 2\<rparr>)
            else if esc = ascii CHR ''u'' then
              if position lx + 5 \<ge> length (buffer lx) then
                (None, lx\<lparr>position := startPosition\<rparr>)
              else
                let hex = slice (buffer lx) (position lx + 2) (position lx + 6) in
                if \<not> isHex4 hex then
                  (None, lx\<lparr>position := startPosition\<rparr>)
                else
                  readString_loop startPosition (result @ [fromCharCode_parseInt16 hex])
                    (lx\<lparr>position := position lx + 5 + 2\<rparr>)
            else
              readString_loop startPosition (result @ [esc]) (lx\<lparr>position := position lx + 2\<rparr>)
        else if ch = ascii CHR 0x22 then
          (Some (StringToken result), lx\<lparr>position := position lx + 1\<rparr>)
        else
          readString_loop startPosition (result @ [ch]) (lx\<lparr>position := position lx + 1\<rparr>)
      else (None, lx\<lparr>position := startPosition\<rparr>))"
  by pat_completeness auto
termination
  by (relation "measure (\<lambda>(s, r, lx). length (buffer lx) - position lx)") auto

declare readString_loop.simps [simp del]

definition readString :: "Lexer \<Rightarrow> 'n Token option \<times> Lexer" where
  "readString lx =
     (let startPosition = position lx in
      readString_loop startPosition [] (lx\<lparr>position := position lx + 1\<rparr>))"

text \<open>
  The \<open>while\<close> loop of \<open>readNumber\<close>, over the three flags; it returns the lexer and
  \<open>hasDigit\<close>, the only flag read after the loop.
\<close>

function readNumber_loop :: "bool \<Rightarrow> bool \<Rightarrow> bool \<Rightarrow> Lexer \<Rightarrow> bool \<times> Lexer" where
  "readNumber_loop hasDigit hasDecimal hasExponent lx =
     (if position lx < length (buffer lx) then
        let ch = buffer lx ! position lx in
        if isDigit ch then
          readNumber_loop True hasDecimal hasExponent (lx\<lparr>position := position lx + 1\<rparr>)
        else if ch = ascii CHR ''.'' \<and> \<not> hasDecimal \<and> \<not> hasExponent then
          readNumber_loop hasDigit True hasExponent (lx\<lparr>position := position lx + 1\<rparr>)
        else if (ch = ascii CHR ''e'' \<or> ch = ascii CHR ''E'') \<and> \<not> hasExponent \<and> hasDigit then
          let lx1 = lx\<lparr>position := position lx + 1\<rparr> in
          if position lx1 < length (buffer lx1) \<and>
             (buffer lx1 ! position lx1 = ascii CHR ''+'' \<or> buffer lx1 ! position lx1 = ascii CHR ''-'')
          then readNumber_loop False hasDecimal True (lx1\<lparr>position := position lx1 + 1\<rparr>)
          else readNumber_loop False hasDecimal True lx1
        else (hasDigit, lx)
      else (hasDigit, lx))"
  by pat_completeness auto
termination
  by (relation "measure (\<lambda>(d, p, e, lx). length (buffer lx) - position lx)") auto

declare readNumber_loop.simps [simp del]

definition readNumber :: "(jsstring \<Rightarrow> 'n option) \<Rightarrow> Lexer \<Rightarrow> 'n Token option \<times> Lexer" where
  "readNumber Number lx =
     (let start = position lx;
          (hasDigit, lx1) = readNumber_loop False False False lx in
      if position lx1 = length (buffer lx1) then (None, lx1\<lparr>position := start\<rparr>)
      else if \<not> hasDigit then (None, lx1\<lparr>position := start\<rparr>)
      else
        let numStr = slice (buffer lx1) start (position lx1) in
        case Number numStr of
          None \<Rightarrow> (None, lx1\<lparr>position := start\<rparr>)
        | Some num \<Rightarrow> (Some (NumberToken num), lx1))"

definition nextToken :: "(jsstring \<Rightarrow> 'n option) \<Rightarrow> Lexer \<Rightarrow> 'n Token option \<times> Lexer" where
  "nextToken Number lx0 =
     (let lx = skipWhitespace lx0 in
      if position lx \<ge> length (buffer lx) then (None, lx)
      else
        let ch = buffer lx ! position lx in
        if ch = ascii CHR ''{'' then (Some BeginObject, lx\<lparr>position := position lx + 1\<rparr>)
        else if ch = ascii CHR ''}'' then (Some EndObject, lx\<lparr>position := position lx + 1\<rparr>)
        else if ch = ascii CHR ''['' then (Some BeginArray, lx\<lparr>position := position lx + 1\<rparr>)
        else if ch = ascii CHR '']'' then (Some EndArray, lx\<lparr>position := position lx + 1\<rparr>)
        else if ch = ascii CHR '':'' then (Some NameSeparator, lx\<lparr>position := position lx + 1\<rparr>)
        else if ch = ascii CHR '','' then (Some ValueSeparator, lx\<lparr>position := position lx + 1\<rparr>)
        else if ch = ascii CHR 0x22 then readString lx
        else if ch = ascii CHR ''-'' \<or> isDigit ch then readNumber Number lx
        else if startsWith ''true'' lx then (Some (ValueToken LTrue), lx\<lparr>position := position lx + 4\<rparr>)
        else if startsWith ''false'' lx then (Some (ValueToken LFalse), lx\<lparr>position := position lx + 5\<rparr>)
        else if startsWith ''null'' lx then (Some (ValueToken LNull), lx\<lparr>position := position lx + 4\<rparr>)
        else (None, lx))"

section \<open>JSON values\<close>

text \<open>
  types.ts: \<open>JSONValue\<close>. An object is the list of its properties in insertion
  order; \<open>obj[key] = value\<close> overwrites the property where it stands or appends it.
\<close>

datatype 'n JSONValue =
    JString jsstring
  | JNumber 'n
  | JBoolean bool
  | JNull
  | JObject "(jsstring \<times> 'n JSONValue) list"
  | JArray "'n JSONValue list"

fun setProperty :: "(jsstring \<times> 'v) list \<Rightarrow> jsstring \<Rightarrow> 'v \<Rightarrow> (jsstring \<times> 'v) list" where
  "setProperty [] key v = [(key, v)]"
| "setProperty ((k, w) # obj) key v =
     (if k = key then (k, v) # obj else (k, w) # setProperty obj key v)"

text \<open>\<open>token.value\<close> of a string, number or value token.\<close>

fun tokenValue :: "'n Token \<Rightarrow> 'n JSONValue" where
  "tokenValue (StringToken s) = JString s"
| "tokenValue (NumberToken n) = JNumber n"
| "tokenValue (ValueToken LTrue) = JBoolean True"
| "tokenValue (ValueToken LFalse) = JBoolean False"
| "tokenValue (ValueToken LNull) = JNull"
| "tokenValue _ = JNull"

fun isScalarToken :: "'n Token \<Rightarrow> bool" where
  "isScalarToken (StringToken s) = True"
| "isScalarToken (NumberToken n) = True"
| "isScalarToken (ValueToken l) = True"
| "isScalarToken _ = False"

text \<open>
  The recursion of \<open>parseValue\<close>, \<open>parseObject\<close> and \<open>parseArray\<close>, in both
  parsers, is driven by a fuel counter that every call and every round of a
  \<open>while (true)\<close> loop decrements. The outer \<open>option\<close> of a result is \<open>None\<close> when
  the fuel ran out (the call did not return); the inner one is \<open>None\<close> for
  \<open>undefined\<close>. The callers start with \<open>fuel\<close>, two units for each code unit
  left and two more, which is enough: see \<open>parseValue_returns\<close> and
  \<open>Parser_parse_returns\<close>.
\<close>

definition fuel :: "Lexer \<Rightarrow> nat" where
  "fuel lx = 2 * (length (buffer lx) - position lx) + 2"

section \<open>The one-shot parser\<close>

text \<open>
  parser.ts. The only field of a \<open>Parser\<close> is its lexer, so the lexer is the state.
  A peek steps the position back by one.
\<close>

datatype error = Error string

definition Parser_nextSignificantToken ::
  "(jsstring \<Rightarrow> 'n option) \<Rightarrow> bool \<Rightarrow> Lexer \<Rightarrow> 'n Token option \<times> Lexer" where
  "Parser_nextSignificantToken Number peek lx =
     (let (token, lx1) = nextToken Number lx in
      if peek \<and> token \<noteq> None then (token, setPosition (position lx1 - 1) lx1)
      else (token, lx1))"

function (sequential) Parser_parseValue ::
    "nat \<Rightarrow> (jsstring \<Rightarrow> 'n option) \<Rightarrow> Lexer \<Rightarrow> ('n JSONValue option \<times> Lexer) option"
  and Parser_parseObject ::
    "nat \<Rightarrow> (jsstring \<Rightarrow> 'n option) \<Rightarrow> Lexer \<Rightarrow> ('n JSONValue option \<times> Lexer) option"
  and Parser_parseObject_loop ::
    "nat \<Rightarrow> (jsstring \<Rightarrow> 'n option) \<Rightarrow> (jsstring \<times> 'n JSONValue) list \<Rightarrow> Lexer
      \<Rightarrow> ('n JSONValue option \<times> Lexer) option"
  and Parser_parseArray ::
    "nat \<Rightarrow> (jsstring \<Rightarrow> 'n option) \<Rightarrow> Lexer \<Rightarrow> ('n JSONValue option \<times> Lexer) option"
  and Parser_parseArray_loop ::
    "nat \<Rightarrow> (jsstring \<Rightarrow> 'n option) \<Rightarrow> 'n JSONValue list \<Rightarrow> Lexer
      \<Rightarrow> ('n JSONValue option \<times> Lexer) option"
where
  "Parser_parseValue 0 Number lx = None"
| "Parser_parseValue (Suc n) Number lx =
     (case Parser_nextSignificantToken Number False lx of
        (None, lx1) \<Rightarrow> Some (None, lx1)
      | (Some token, lx1) \<Rightarrow>
          if isScalarToken token then Some (Some (tokenValue token), lx1)
          else if token = BeginObject then Parser_parseObject n Number lx1
          else if token = BeginArray then Parser_parseArray n Number lx1
          else Some (None, lx1))"
| "Parser_parseObject n Number lx =
     (case Parser_nextSignificantToken Number True lx of
        (nextTok, lx1) \<Rightarrow>
          if nextTok = Some EndObject
          then Some (Some (JObject []), snd (Parser_nextSignificantToken Number False lx1))
          else Parser_parseObject_loop n Number [] lx1)"
| "Parser_parseObject_loop 0 Number obj lx = None"
| "Parser_parseObject_loop (Suc n) Number obj lx =
     (case Parser_nextSignificantToken Number False lx of
        (Some (StringToken key), lx1) \<Rightarrow>
          (case Parser_nextSignificantToken Number False lx1 of
             (Some NameSeparator, lx2) \<Rightarrow>
               (case Parser_parseValue n Number lx2 of
                  None \<Rightarrow> None
                | Some (None, lx3) \<Rightarrow> Some (None, lx3)
                | Some (Some v, lx3) \<Rightarrow>
                    (case Parser_nextSignificantToken Number False lx3 of
                       (None, lx4) \<Rightarrow> Some (None, lx4)
                     | (Some separatorToken, lx4) \<Rightarrow>
                         if separatorToken = EndObject
                         then Some (Some (JObject (setProperty obj key v)), lx4)
                         else if separatorToken \<noteq> ValueSeparator then Some (None, lx4)
                         else Parser_parseObject_loop n Number (setProperty obj key v) lx4))
           | (_, lx2) \<Rightarrow> Some (None, lx2))
      | (_, lx1) \<Rightarrow> Some (None, lx1))"
| "Parser_parseArray n Number lx =
     (case Parser_nextSignificantToken Number True lx of
        (nextTok, lx1) \<Rightarrow>
          if nextTok = Some EndArray
          then Some (Some (JArray []), snd (Parser_nextSignificantToken Number False lx1))
          else Parser_parseArray_loop n Number [] lx1)"
| "Parser_parseArray_loop 0 Number arr lx = None"
| "Parser_parseArray_loop (Suc n) Number arr lx =
     (case Parser_parseValue n Number lx of
        None \<Rightarrow> None
      | Some (None, lx1) \<Rightarrow> Some (None, lx1)
      | Some (Some v, lx1) \<Rightarrow>
          (case Parser_nextSignificantToken Number False lx1 of
             (None, lx2) \<Rightarrow> Some (None, lx2)
           | (Some separatorToken, lx2) \<Rightarrow>
               if separatorToken = EndArray then Some (Some (JArray (arr @ [v])), lx2)
               else if separatorToken \<noteq> ValueSeparator then Some (None, lx2)
               else Parser_parseArray_loop n Number (arr @ [v]) lx2))"
  by pat_completeness auto
termination
  by (relation "measure (\<lambda>x. case x of
      Inl (Inl (n, _)) \<Rightarrow> 3 * n + 2
    | Inl (Inr (n, _)) \<Rightarrow> 3 * n + 1
    | Inr (Inl (n, _)) \<Rightarrow> 3 * n
    | Inr (Inr (Inl (n, _))) \<Rightarrow> 3 * n + 1
    | Inr (Inr (Inr (n, _))) \<Rightarrow> 3 * n)") simp_all


text \<open>
  \<open>parse\<close>: the result is the thrown error or the value, with the lexer as the call
  leaves it; \<open>None\<close> when the recursion ran out of fuel.
\<close>

definition Parser_parse ::
  "(jsstring \<Rightarrow> 'n option) \<Rightarrow> jsstring \<Rightarrow> Lexer \<Rightarrow> ((error + 'n JSONValue) \<times> Lexer) option" where
  "Parser_parse Number input lx =
     (let lx1 = addChunk input lx in
      case Parser_parseValue (fuel lx1) Number lx1 of
        None \<Rightarrow> None
      | Some (None, lx2) \<Rightarrow> Some (Inl (Error ''Invalid JSON''), lx2)
      | Some (Some v, lx2) \<Rightarrow> Some (Inr v, lx2))"

section \<open>The streaming parser\<close>

text \<open>
  streaming-results-json-parser.ts. The state of a \<open>StreamingJSONParser\<close> is its
  lexer and its \<open>ParserState\<close>; the calls of the \<open>onNewEntry\<close> callback and of
  \<open>console.error\<close> are recorded, in order, in \<open>entries\<close> and \<open>errors\<close>. The
  built-in \<open>JSON.parse\<close> is a parameter of type \<open>jsstring \<Rightarrow> 'v option\<close>,
  with \<open>None\<close> when it throws. The consumer's callback is a parameter too, of type
  \<open>'v list \<Rightarrow> 'v \<Rightarrow> bool\<close>: given the entries it was called with before and the new
  entry, it says whether the call returns (\<open>True\<close>) or throws (\<open>False\<close>). The call is
  made inside the \<open>try\<close> block, so an exception of the callback is caught like one of
  \<open>JSON.parse\<close>.
\<close>

datatype ParserState =
    EXPECT_OBJECT_START
  | SCANNING_FOR_RESULTS
  | EXPECT_COLON_AFTER_RESULTS
  | EXPECT_ARRAY_START
  | PARSING_RESULTS_ARRAY
  | PARSING_ARRAY_ENTRY (bracketCount: int) (startPosition: nat)
  | DONE

record 'v StreamingJSONParser =
  lexer :: Lexer
  state :: ParserState
  entries :: "'v list"
  errors :: "jsstring list"

definition new_StreamingJSONParser :: "'v StreamingJSONParser" where
  "new_StreamingJSONParser =
     \<lparr>lexer = new_Lexer, state = EXPECT_OBJECT_START, entries = [], errors = []\<rparr>"

datatype TokenType =
    T_begin_object | T_end_object | T_begin_array | T_end_array
  | T_name_separator | T_value_separator | T_string | T_number | T_value

fun tokenType :: "'n Token \<Rightarrow> TokenType" where
  "tokenType BeginObject = T_begin_object"
| "tokenType EndObject = T_end_object"
| "tokenType BeginArray = T_begin_array"
| "tokenType EndArray = T_end_array"
| "tokenType NameSeparator = T_name_separator"
| "tokenType ValueSeparator = T_value_separator"
| "tokenType (StringToken s) = T_string"
| "tokenType (NumberToken n) = T_number"
| "tokenType (ValueToken l) = T_value"

definition nextSignificantToken ::
  "(jsstring \<Rightarrow> 'n option) \<Rightarrow> bool \<Rightarrow> Lexer \<Rightarrow> 'n Token option \<times> Lexer" where
  "nextSignificantToken Number peek lx =
     (let oldPos = position lx;
          (token, lx1) = nextToken Number lx in
      if peek \<and> token \<noteq> None then (token, setPosition oldPos lx1)
      else (token, lx1))"

definition expectToken ::
  "(jsstring \<Rightarrow> 'n option) \<Rightarrow> TokenType \<Rightarrow> Lexer \<Rightarrow> bool \<times> Lexer" where
  "expectToken Number ty lx =
     (case nextSignificantToken Number False lx of
        (None, lx1) \<Rightarrow> (False, lx1)
      | (Some token, lx1) \<Rightarrow> (tokenType token = ty, lx1))"

function (sequential) parseValue ::
    "nat \<Rightarrow> (jsstring \<Rightarrow> 'n option) \<Rightarrow> bool \<Rightarrow> Lexer \<Rightarrow> ('n JSONValue option \<times> Lexer) option"
  and parseObject ::
    "nat \<Rightarrow> (jsstring \<Rightarrow> 'n option) \<Rightarrow> bool \<Rightarrow> Lexer \<Rightarrow> ('n JSONValue option \<times> Lexer) option"
  and parseObject_loop ::
    "nat \<Rightarrow> (jsstring \<Rightarrow> 'n option) \<Rightarrow> bool \<Rightarrow> (jsstring \<times> 'n JSONValue) list \<Rightarrow> Lexer
      \<Rightarrow> ('n JSONValue option \<times> Lexer) option"
  and parseArray ::
    "nat \<Rightarrow> (jsstring \<Rightarrow> 'n option) \<Rightarrow> bool \<Rightarrow> Lexer \<Rightarrow> ('n JSONValue option \<times> Lexer) option"
  and parseArray_loop ::
    "nat \<Rightarrow> (jsstring \<Rightarrow> 'n option) \<Rightarrow> bool \<Rightarrow> 'n JSONValue list \<Rightarrow> Lexer
      \<Rightarrow> ('n JSONValue option \<times> Lexer) option"
where
  "parseValue 0 Number discard lx = None"
| "parseValue (Suc n) Number discard lx =
     (case nextSignificantToken Number False lx of
        (None, lx1) \<Rightarrow> Some (None, lx1)
      | (Some token, lx1) \<Rightarrow>
          if isScalarToken token
          then Some (Some (if discard then JObject [] else tokenValue token), lx1)
          else if token = BeginObject then parseObject n Number discard lx1
          else if token = BeginArray then parseArray n Number discard lx1
          else Some (None, lx1))"
| "parseObject n Number discard lx =
     (case nextSignificantToken Number True lx of
        (None, lx1) \<Rightarrow> Some (None, lx1)
      | (Some nextTok, lx1) \<Rightarrow>
          if nextTok = EndObject
          then Some (Some (JObject []), snd (nextSignificantToken Number False lx1))
          else parseObject_loop n Number discard [] lx1)"
| "parseObject_loop 0 Number discard obj lx = None"
| "parseObject_loop (Suc n) Number discard obj lx =
     (case nextSignificantToken Number False lx of
        (Some (StringToken key), lx1) \<Rightarrow>
          (case expectToken Number T_name_separator lx1 of
             (False, lx2) \<Rightarrow> Some (None, lx2)
           | (True, lx2) \<Rightarrow>
               (case parseValue n Number discard lx2 of
                  None \<Rightarrow> None
                | Some (None, lx3) \<Rightarrow> Some (None, lx3)
                | Some (Some v, lx3) \<Rightarrow>
                    let obj1 = (if \<not> discard then setProperty obj key v else obj) in
                    (case nextSignificantToken Number False lx3 of
                       (None, lx4) \<Rightarrow> Some (None, lx4)
                     | (Some separator, lx4) \<Rightarrow>
                         if separator = EndObject
                         then Some (Some (if discard then JObject [] else JObject obj1), lx4)
                         else if separator \<noteq> ValueSeparator then Some (None, lx4)
                         else parseObject_loop n Number discard obj1 lx4)))
      | (_, lx1) \<Rightarrow> Some (None, lx1))"
| "parseArray n Number discard lx =
     (case nextSignificantToken Number True lx of
        (None, lx1) \<Rightarrow> Some (None, lx1)
      | (Some nextTok, lx1) \<Rightarrow>
          if nextTok = EndArray
          then Some (Some (JArray []), snd (nextSignificantToken Number False lx1))
          else parseArray_loop n Number discard [] lx1)"
| "parseArray_loop 0 Number discard arr lx = None"
| "parseArray_loop (Suc n) Number discard arr lx =
     (case parseValue n Number discard lx of
        None \<Rightarrow> None
      | Some (None, lx1) \<Rightarrow> Some (None, lx1)
      | Some (Some v, lx1) \<Rightarrow>
          let arr1 = (if \<not> discard then arr @ [v] else arr) in
          (case nextSignificantToken Number False lx1 of
             (None, lx2) \<Rightarrow> Some (None, lx2)
           | (Some separator, lx2) \<Rightarrow>
               if separator = EndArray
               then Some (Some (if discard then JArray [] else JArray arr1), lx2)
               else if separator \<noteq> ValueSeparator then Some (None, lx2)
               else parseArray_loop n Number discard arr1 lx2))"
  by pat_completeness auto
termination
  by (relation "measure (\<lambda>x. case x of
      Inl (Inl (n, _)) \<Rightarrow> 3 * n + 2
    | Inl (Inr (n, _)) \<Rightarrow> 3 * n + 1
    | Inr (Inl (n, _)) \<Rightarrow> 3 * n
    | Inr (Inr (Inl (n, _))) \<Rightarrow> 3 * n + 1
    | Inr (Inr (Inr (n, _))) \<Rightarrow> 3 * n)") simp_all


definition skipValue :: "(jsstring \<Rightarrow> 'n option) \<Rightarrow> Lexer \<Rightarrow> (bool \<times> Lexer) option" where
  "skipValue Number lx =
     (case parseValue (fuel lx) Number True lx of
        None \<Rightarrow> None
      | Some (v, lx1) \<Rightarrow> Some (v \<noteq> None, lx1))"

text \<open>
  The handlers return what the method returns and the parser as the method leaves it.
\<close>

definition handleExpectObjectStart ::
  "(jsstring \<Rightarrow> 'n option) \<Rightarrow> 'n Token \<Rightarrow> 'v StreamingJSONParser \<Rightarrow> bool \<times> 'v StreamingJSONParser" where
  "handleExpectObjectStart Number token p =
     (if token \<noteq> BeginObject then (False, p)
      else (True, p\<lparr>lexer := snd (nextSignificantToken Number False (lexer p)),
                     state := SCANNING_FOR_RESULTS\<rparr>))"

definition handleScanningForResults ::
  "(jsstring \<Rightarrow> 'n option) \<Rightarrow> 'n Token \<Rightarrow> 'v StreamingJSONParser
    \<Rightarrow> (bool \<times> 'v StreamingJSONParser) option" where
  "handleScanningForResults Number token p =
     (let lx1 = snd (nextSignificantToken Number False (lexer p)) in
      if token = StringToken (str ''results'')
      then Some (True, p\<lparr>lexer := lx1, state := EXPECT_COLON_AFTER_RESULTS\<rparr>)
      else
        case expectToken Number T_name_separator lx1 of
          (False, lx2) \<Rightarrow> Some (False, p\<lparr>lexer := lx2\<rparr>)
        | (True, lx2) \<Rightarrow>
            (case skipValue Number lx2 of
               None \<Rightarrow> None
             | Some (False, lx3) \<Rightarrow> Some (False, p\<lparr>lexer := lx3\<rparr>)
             | Some (True, lx3) \<Rightarrow>
                 (case nextSignificantToken Number False lx3 of
                    (None, lx4) \<Rightarrow> Some (False, p\<lparr>lexer := lx4\<rparr>)
                  | (Some sep, lx4) \<Rightarrow>
                      if sep = EndObject then Some (True, p\<lparr>lexer := lx4, state := DONE\<rparr>)
                      else if sep \<noteq> ValueSeparator then Some (False, p\<lparr>lexer := lx4\<rparr>)
                      else Some (True, p\<lparr>lexer := lx4\<rparr>))))"

definition handleExpectColon ::
  "(jsstring \<Rightarrow> 'n option) \<Rightarrow> 'n Token \<Rightarrow> 'v StreamingJSONParser \<Rightarrow> bool \<times> 'v StreamingJSONParser" where
  "handleExpectColon Number token p =
     (if token \<noteq> NameSeparator then (False, p)
      else (True, p\<lparr>lexer := snd (nextSignificantToken Number False (lexer p)),
                     state := EXPECT_ARRAY_START\<rparr>))"

definition handleExpectArrayStart ::
  "(jsstring \<Rightarrow> 'n option) \<Rightarrow> 'n Token \<Rightarrow> 'v StreamingJSONParser \<Rightarrow> bool \<times> 'v StreamingJSONParser" where
  "handleExpectArrayStart Number token p =
     (if token \<noteq> BeginArray then (False, p)
      else (True, p\<lparr>lexer := snd (nextSignificantToken Number False (lexer p)),
                     state := PARSING_RESULTS_ARRAY\<rparr>))"

definition handleParsingResultsArray ::
  "(jsstring \<Rightarrow> 'n option) \<Rightarrow> 'n Token \<Rightarrow> 'v StreamingJSONParser \<Rightarrow> bool \<times> 'v StreamingJSONParser" where
  "handleParsingResultsArray Number token p =
     (if token = EndArray
      then (True, p\<lparr>lexer := snd (nextSignificantToken Number False (lexer p)), state := DONE\<rparr>)
      else if token = ValueSeparator
      then (True, p\<lparr>lexer := snd (nextSignificantToken Number False (lexer p))\<rparr>)
      else if token = BeginObject
      then (True, p\<lparr>lexer := snd (nextSignificantToken Number False (lexer p)),
                     state := PARSING_ARRAY_ENTRY 1 (position (lexer p))\<rparr>)
      else (False, p))"

definition handleParsingArrayEntry ::
  "(jsstring \<Rightarrow> 'n option) \<Rightarrow> (jsstring \<Rightarrow> 'v option) \<Rightarrow> ('v list \<Rightarrow> 'v \<Rightarrow> bool)
    \<Rightarrow> 'v StreamingJSONParser \<Rightarrow> bool \<times> 'v StreamingJSONParser" where
  "handleParsingArrayEntry Number JSON_parse onNewEntry p =
     (case state p of
        PARSING_ARRAY_ENTRY count start \<Rightarrow>
          (case nextSignificantToken Number False (lexer p) of
             (None, lx1) \<Rightarrow> (False, p\<lparr>lexer := lx1\<rparr>)
           | (Some token, lx1) \<Rightarrow>
               if token = BeginObject
               then (True, p\<lparr>lexer := lx1, state := PARSING_ARRAY_ENTRY (count + 1) start\<rparr>)
               else if token = EndObject then
                 if count - 1 = 0 then
                   let objectStr = slice (buffer lx1) start (position lx1) in
                   case JSON_parse objectStr of
                     Some parsedObject \<Rightarrow>
                       if onNewEntry (entries p) parsedObject
                       then (True, p\<lparr>lexer := lx1, state := PARSING_RESULTS_ARRAY,
                                      entries := entries p @ [parsedObject]\<rparr>)
                       else (False, p\<lparr>lexer := lx1,
                                       state := PARSING_ARRAY_ENTRY (count - 1) start,
                                       entries := entries p @ [parsedObject],
                                       errors := errors p @ [objectStr]\<rparr>)
                   | None \<Rightarrow>
                       (False, p\<lparr>lexer := lx1, state := PARSING_ARRAY_ENTRY (count - 1) start,
                                  errors := errors p @ [objectStr]\<rparr>)
                 else (True, p\<lparr>lexer := lx1, state := PARSING_ARRAY_ENTRY (count - 1) start\<rparr>)
               else (True, p\<lparr>lexer := lx1\<rparr>))
      | _ \<Rightarrow> (False, p))"

definition processNextStep ::
  "(jsstring \<Rightarrow> 'n option) \<Rightarrow> (jsstring \<Rightarrow> 'v option) \<Rightarrow> ('v list \<Rightarrow> 'v \<Rightarrow> bool)
    \<Rightarrow> 'v StreamingJSONParser \<Rightarrow> (bool \<times> 'v StreamingJSONParser) option" where
  "processNextStep Number JSON_parse onNewEntry p0 =
     (case nextSignificantToken Number True (lexer p0) of
        (None, lx1) \<Rightarrow> Some (False, p0\<lparr>lexer := lx1\<rparr>)
      | (Some token, lx1) \<Rightarrow>
          let p = p0\<lparr>lexer := lx1\<rparr> in
          case state p of
            EXPECT_OBJECT_START \<Rightarrow> Some (handleExpectObjectStart Number token p)
          | SCANNING_FOR_RESULTS \<Rightarrow> handleScanningForResults Number token p
          | EXPECT_COLON_AFTER_RESULTS \<Rightarrow> Some (handleExpectColon Number token p)
          | EXPECT_ARRAY_START \<Rightarrow> Some (handleExpectArrayStart Number token p)
          | PARSING_RESULTS_ARRAY \<Rightarrow> Some (handleParsingResultsArray Number token p)
          | PARSING_ARRAY_ENTRY count start \<Rightarrow>
              Some (handleParsingArrayEntry Number JSON_parse onNewEntry p)
          | DONE \<Rightarrow> Some (False, p))"

text \<open>
  The \<open>while (madeProgress)\<close> loop of \<open>parseChunk\<close>: \<open>None\<close> is a loop that does
  not end.
\<close>

partial_function (option) parseChunk_loop ::
  "(jsstring \<Rightarrow> 'n option) \<Rightarrow> (jsstring \<Rightarrow> 'v option) \<Rightarrow> ('v list \<Rightarrow> 'v \<Rightarrow> bool)
    \<Rightarrow> 'v StreamingJSONParser \<Rightarrow> 'v StreamingJSONParser option" where
  "parseChunk_loop Number JSON_parse onNewEntry p =
     (let oldPosition = position (lexer p) in
      case processNextStep Number JSON_parse onNewEntry p of
        None \<Rightarrow> None
      | Some (madeProgress, p1) \<Rightarrow>
          if madeProgress \<and> position (lexer p1) = oldPosition then Some p1
          else if madeProgress then parseChunk_loop Number JSON_parse onNewEntry p1
          else Some p1)"

definition parseChunk ::
  "(jsstring \<Rightarrow> 'n option) \<Rightarrow> (jsstring \<Rightarrow> 'v option) \<Rightarrow> ('v list \<Rightarrow> 'v \<Rightarrow> bool)
    \<Rightarrow> jsstring \<Rightarrow> 'v StreamingJSONParser \<Rightarrow> 'v StreamingJSONParser option" where
  "parseChunk Number JSON_parse onNewEntry chunk p =
     parseChunk_loop Number JSON_parse onNewEntry (p\<lparr>lexer := addChunk chunk (lexer p)\<rparr>)"

text \<open>
  \<open>parseStream\<close> on a stream that delivers the given chunks and closes; a chunk that is
  the empty string is falsy and is not passed to \<open>parseChunk\<close>.
\<close>

fun parseStream ::
  "(jsstring \<Rightarrow> 'n option) \<Rightarrow> (jsstring \<Rightarrow> 'v option) \<Rightarrow> ('v list \<Rightarrow> 'v \<Rightarrow> bool)
    \<Rightarrow> jsstring list \<Rightarrow> 'v StreamingJSONParser \<Rightarrow> 'v StreamingJSONParser option" where
  "parseStream Number JSON_parse onNewEntry [] p = Some p"
| "parseStream Number JSON_parse onNewEntry (chunk # chunks) p =
     (if chunk \<noteq> [] then
        case parseChunk Number JSON_parse onNewEntry chunk p of
          None \<Rightarrow> None
        | Some p1 \<Rightarrow> parseStream Number JSON_parse onNewEntry chunks p1
      else parseStream Number JSON_parse onNewEntry chunks p)"

section \<open>The built-ins on concrete inputs\<close>

text \<open>
  The definitions above hold for every behaviour of \<open>Number\<close> and \<open>JSON.parse\<close>.
  To run the parsers on concrete documents, the two built-ins are given here as ECMAScript
  defines them. A number value is represented by the decimal literal that denotes it.

  \<open>Number_builtin\<close>: on the strings the lexer passes (digits, \<open>.\<close>, \<open>e\<close>, \<open>E\<close> and
  signs) \<open>Number\<close> is not \<open>NaN\<close> exactly when the string is a \<open>StrDecimalLiteral\<close>:
  an optional sign, then digits with an optional fraction, or a fraction alone, then an
  optional exponent.
\<close>

datatype jsnumber = Numeric jsstring

text \<open>A consumer whose callback never throws, as the one of the tests (\<open>entries.push\<close>).\<close>

definition callback_returns :: "'v list \<Rightarrow> 'v \<Rightarrow> bool" where
  "callback_returns previous entry = True"

text \<open>A consumer whose callback throws on every call.\<close>

definition callback_throws :: "'v list \<Rightarrow> 'v \<Rightarrow> bool" where
  "callback_throws previous entry = False"

definition skipSign :: "jsstring \<Rightarrow> jsstring" where
  "skipSign s =
     (case s of [] \<Rightarrow> []
      | c # r \<Rightarrow> if c = ascii CHR ''+'' \<or> c = ascii CHR ''-'' then r else s)"

definition isExponentPart_opt :: "jsstring \<Rightarrow> bool" where
  "isExponentPart_opt s =
     (case s of [] \<Rightarrow> True
      | c # r \<Rightarrow> (c = ascii CHR ''e'' \<or> c = ascii CHR ''E'') \<and>
                 skipSign r \<noteq> [] \<and> list_all isDigit (skipSign r))"

definition isStrDecimalLiteral :: "jsstring \<Rightarrow> bool" where
  "isStrDecimalLiteral s =
     (let s1 = skipSign s;
          ip = takeWhile isDigit s1;
          r1 = dropWhile isDigit s1
      in case r1 of
           [] \<Rightarrow> ip \<noteq> []
         | c # r \<Rightarrow>
             if c = ascii CHR ''.''
             then (ip \<noteq> [] \<or> takeWhile isDigit r \<noteq> []) \<and> isExponentPart_opt (dropWhile isDigit r)
             else ip \<noteq> [] \<and> isExponentPart_opt r1)"

definition Number_builtin :: "jsstring \<Rightarrow> jsnumber option" where
  "Number_builtin s = (if isStrDecimalLiteral s then Some (Numeric s) else None)"

text \<open>
  \<open>JSON_parse_builtin\<close>: the JSON grammar of ECMA-404, as \<open>JSON.parse\<close> reads it:
  white space is space, tab, line feed and carriage return; a string has no raw control
  character and only the escapes of the grammar; a number is \<open>-\<close>? int frac? exp?;
  a repeated key keeps the last value; anything after the value but white space is a
  syntax error. The recursion has fuel as above, started above the length of the text.
\<close>

definition isJSONWhitespace :: "code_unit \<Rightarrow> bool" where
  "isJSONWhitespace c \<longleftrightarrow> c = 0x20 \<or> c = 0x09 \<or> c = 0x0A \<or> c = 0x0D"

text \<open>A number at the head of the text: the literal and the rest.\<close>

definition json_number :: "jsstring \<Rightarrow> (jsstring \<times> jsstring) option" where
  "json_number s =
     (let sign = (case s of [] \<Rightarrow> [] | c # r \<Rightarrow> if c = ascii CHR ''-'' then [c] else []);
          s1 = drop (length sign) s;
          ip = takeWhile isDigit s1;
          r1 = dropWhile isDigit s1
      in if ip = [] \<or> (length ip > 1 \<and> hd ip = ascii CHR ''0'') then None
         else
           let frac = (case r1 of [] \<Rightarrow> Some []
                       | c # r \<Rightarrow>
                           if c = ascii CHR ''.''
                           then (if takeWhile isDigit r = [] then None
                                 else Some (c # takeWhile isDigit r))
                           else Some [])
           in case frac of
                None \<Rightarrow> None
              | Some fp \<Rightarrow>
                  let r2 = drop (length fp) r1;
                      ex = (case r2 of [] \<Rightarrow> Some []
                            | c # r \<Rightarrow>
                                if c = ascii CHR ''e'' \<or> c = ascii CHR ''E''
                                then (let sg = take (length r - length (skipSign r)) r;
                                          ds = takeWhile isDigit (skipSign r)
                                      in if ds = [] then None else Some (c # sg @ ds))
                                else Some [])
                  in case ex of
                       None \<Rightarrow> None
                     | Some ep \<Rightarrow> Some (sign @ ip @ fp @ ep, drop (length ep) r2))"

text \<open>A string after its opening quote: the decoded value and the rest.\<close>

fun json_string :: "jsstring \<Rightarrow> jsstring \<Rightarrow> (jsstring \<times> jsstring) option" where
  "json_string acc [] = None"
| "json_string acc (c # r) =
     (if c = ascii CHR 0x22 then Some (acc, r)
      else if c = ascii CHR 0x5C then
        (case r of
           [] \<Rightarrow> None
         | e # r1 \<Rightarrow>
             if e = ascii CHR 0x22 \<or> e = ascii CHR 0x5C \<or> e = ascii CHR ''/''
             then json_string (acc @ [e]) r1
             else if e = ascii CHR ''b'' then json_string (acc @ [0x08]) r1
             else if e = ascii CHR ''f'' then json_string (acc @ [0x0C]) r1
             else if e = ascii CHR ''n'' then json_string (acc @ [0x0A]) r1
             else if e = ascii CHR ''r'' then json_string (acc @ [0x0D]) r1
             else if e = ascii CHR ''t'' then json_string (acc @ [0x09]) r1
             else if e = ascii CHR ''u'' \<and> isHex4 (take 4 r1)
             then json_string (acc @ [fromCharCode_parseInt16 (take 4 r1)]) (drop 4 r1)
             else None)
      else if c < 0x20 then None
      else json_string (acc @ [c]) r)"

function (sequential) json_value :: "nat \<Rightarrow> jsstring \<Rightarrow> (jsnumber JSONValue \<times> jsstring) option"
  and json_members ::
    "nat \<Rightarrow> (jsstring \<times> jsnumber JSONValue) list \<Rightarrow> jsstring \<Rightarrow> (jsnumber JSONValue \<times> jsstring) option"
  and json_elements ::
    "nat \<Rightarrow> jsnumber JSONValue list \<Rightarrow> jsstring \<Rightarrow> (jsnumber JSONValue \<times> jsstring) option"
where
  "json_value 0 s = None"
| "json_value (Suc n) s =
     (case dropWhile isJSONWhitespace s of
        [] \<Rightarrow> None
      | c # r \<Rightarrow>
          if c = ascii CHR ''{'' then
            (case dropWhile isJSONWhitespace r of
               [] \<Rightarrow> None
             | c1 # r1 \<Rightarrow> if c1 = ascii CHR ''}'' then Some (JObject [], r1) else json_members n [] r)
          else if c = ascii CHR ''['' then
            (case dropWhile isJSONWhitespace r of
               [] \<Rightarrow> None
             | c1 # r1 \<Rightarrow> if c1 = ascii CHR '']'' then Some (JArray [], r1) else json_elements n [] r)
          else if c = ascii CHR 0x22 then
            (case json_string [] r of None \<Rightarrow> None | Some (t, r1) \<Rightarrow> Some (JString t, r1))
          else if take 4 (c # r) = str ''true'' then Some (JBoolean True, drop 4 (c # r))
          else if take 5 (c # r) = str ''false'' then Some (JBoolean False, drop 5 (c # r))
          else if take 4 (c # r) = str ''null'' then Some (JNull, drop 4 (c # r))
          else
            (case json_number (c # r) of
               None \<Rightarrow> None
             | Some (l, r1) \<Rightarrow> Some (JNumber (Numeric l), r1)))"
| "json_members 0 obj s = None"
| "json_members (Suc n) obj s =
     (case dropWhile isJSONWhitespace s of
        [] \<Rightarrow> None
      | c # r \<Rightarrow>
          if c \<noteq> ascii CHR 0x22 then None
          else
            (case json_string [] r of
               None \<Rightarrow> None
             | Some (key, r1) \<Rightarrow>
                 (case dropWhile isJSONWhitespace r1 of
                    [] \<Rightarrow> None
                  | c2 # r2 \<Rightarrow>
                      if c2 \<noteq> ascii CHR '':'' then None
                      else
                        (case json_value n r2 of
                           None \<Rightarrow> None
                         | Some (v, r3) \<Rightarrow>
                             (case dropWhile isJSONWhitespace r3 of
                                [] \<Rightarrow> None
                              | c4 # r4 \<Rightarrow>
                                  if c4 = ascii CHR '','' then json_members n (setProperty obj key v) r4
                                  else if c4 = ascii CHR ''}''
                                  then Some (JObject (setProperty obj key v), r4)
                                  else None)))))"
| "json_elements 0 arr s = None"
| "json_elements (Suc n) arr s =
     (case json_value n s of
        None \<Rightarrow> None
      | Some (v, r1) \<Rightarrow>
          (case dropWhile isJSONWhitespace r1 of
             [] \<Rightarrow> None
           | c2 # r2 \<Rightarrow>
               if c2 = ascii CHR '','' then json_elements n (arr @ [v]) r2
               else if c2 = ascii CHR '']'' then Some (JArray (arr @ [v]), r2)
               else None))"
  by pat_completeness auto
termination
  by (relation "measure (\<lambda>x. case x of
      Inl (n, _) \<Rightarrow> 2 * n + 1
    | Inr (Inl (n, _)) \<Rightarrow> 2 * n
    | Inr (Inr (n, _)) \<Rightarrow> 2 * n)") simp_all

definition JSON_parse_builtin :: "jsstring \<Rightarrow> jsnumber JSONValue option" where
  "JSON_parse_builtin text =
     (case json_value (Suc (length text)) text of
        None \<Rightarrow> None
      | Some (v, r) \<Rightarrow> if dropWhile isJSONWhitespace r = [] then Some v else None)"

section \<open>Progress of the lexer\<close>

text \<open>
  \<open>remaining\<close> is the input left after the cursor; \<open>advances lx lx'\<close> says that
  \<open>lx'\<close> has the buffer of \<open>lx\<close> and a cursor that is not before the cursor of
  \<open>lx\<close>; \<open>returns_from lx res\<close> says that a call started at \<open>lx\<close> returned (did not
  run out of fuel) and left such a lexer.
\<close>

definition remaining :: "Lexer \<Rightarrow> nat" where
  "remaining lx = length (buffer lx) - position lx"

definition advances :: "Lexer \<Rightarrow> Lexer \<Rightarrow> bool" where
  "advances lx lx' \<longleftrightarrow> buffer lx' = buffer lx \<and> position lx \<le> position lx'"

definition returns_from :: "Lexer \<Rightarrow> ('a \<times> Lexer) option \<Rightarrow> bool" where
  "returns_from lx res \<longleftrightarrow> (\<exists>v lx'. res = Some (v, lx') \<and> advances lx lx')"

section \<open>Reachable states of the streaming parser\<close>

text \<open>
  The states a parser can be in: the fresh parser, a state after a chunk was appended to
  the buffer, and a state after a step. \<open>depth_invariant\<close> is the bound on
  \<open>bracketCount\<close> as long as \<open>console.error\<close> was never called; \<open>step_ok\<close> says that
  a step returned, did not move the cursor back, and reported progress only on a cursor
  inside the buffer.
\<close>

inductive reachable ::
  "(jsstring \<Rightarrow> 'n option) \<Rightarrow> (jsstring \<Rightarrow> 'v option) \<Rightarrow> ('v list \<Rightarrow> 'v \<Rightarrow> bool)
    \<Rightarrow> 'v StreamingJSONParser \<Rightarrow> bool"
  for Number JSON_parse onNewEntry where
    start: "reachable Number JSON_parse onNewEntry new_StreamingJSONParser"
  | chunk: "reachable Number JSON_parse onNewEntry p \<Longrightarrow>
      reachable Number JSON_parse onNewEntry (p\<lparr>lexer := addChunk chunk (lexer p)\<rparr>)"
  | step: "reachable Number JSON_parse onNewEntry p \<Longrightarrow> processNextStep Number JSON_parse onNewEntry p = Some (b, p') \<Longrightarrow>
      reachable Number JSON_parse onNewEntry p'"

definition depth_invariant :: "'v StreamingJSONParser \<Rightarrow> bool" where
  "depth_invariant p \<longleftrightarrow>
     (errors p = [] \<longrightarrow> (\<forall>c st. state p = PARSING_ARRAY_ENTRY c st \<longrightarrow> 1 \<le> c))"

definition step_ok :: "'v StreamingJSONParser \<Rightarrow> (bool \<times> 'v StreamingJSONParser) option \<Rightarrow> bool" where
  "step_ok p res \<longleftrightarrow>
     (\<exists>b p'. res = Some (b, p') \<and> advances (lexer p) (lexer p') \<and>
        (b \<longrightarrow> position (lexer p) < length (buffer (lexer p))))"

section \<open>JSON number literals\<close>

text \<open>
  The number grammar of JSON (\<open>-\<close>? int frac? exp?, where int is \<open>0\<close> or a digit
  from 1 to 9 followed by digits) as an automaton; \<open>flags_of\<close> gives, for the states in
  which the loop of \<open>readNumber\<close> can stand between two rounds, the values of
  \<open>hasDigit\<close>, \<open>hasDecimal\<close> and \<open>hasExponent\<close> there.
\<close>

datatype NumberState =
  NStart | NMinus | NZero | NInt | NDot | NFrac | NExp | NExpSign | NExpDigits

fun number_step :: "NumberState \<Rightarrow> code_unit \<Rightarrow> NumberState option" where
  "number_step NStart c =
     (if c = ascii CHR ''-'' then Some NMinus
      else if c = ascii CHR ''0'' then Some NZero
      else if isDigit c then Some NInt else None)"
| "number_step NMinus c =
     (if c = ascii CHR ''0'' then Some NZero
      else if isDigit c then Some NInt else None)"
| "number_step NZero c =
     (if c = ascii CHR ''.'' then Some NDot
      else if c = ascii CHR ''e'' \<or> c = ascii CHR ''E'' then Some NExp else None)"
| "number_step NInt c =
     (if isDigit c then Some NInt
      else if c = ascii CHR ''.'' then Some NDot
      else if c = ascii CHR ''e'' \<or> c = ascii CHR ''E'' then Some NExp else None)"
| "number_step NDot c = (if isDigit c then Some NFrac else None)"
| "number_step NFrac c =
     (if isDigit c then Some NFrac
      else if c = ascii CHR ''e'' \<or> c = ascii CHR ''E'' then Some NExp else None)"
| "number_step NExp c =
     (if c = ascii CHR ''+'' \<or> c = ascii CHR ''-'' then Some NExpSign
      else if isDigit c then Some NExpDigits else None)"
| "number_step NExpSign c = (if isDigit c then Some NExpDigits else None)"
| "number_step NExpDigits c = (if isDigit c then Some NExpDigits else None)"

fun number_accepting :: "NumberState \<Rightarrow> bool" where
  "number_accepting NZero = True"
| "number_accepting NInt = True"
| "number_accepting NFrac = True"
| "number_accepting NExpDigits = True"
| "number_accepting _ = False"

fun number_run :: "NumberState \<Rightarrow> jsstring \<Rightarrow> bool" where
  "number_run q [] = number_accepting q"
| "number_run q (c # cs) =
     (case number_step q c of None \<Rightarrow> False | Some q' \<Rightarrow> number_run q' cs)"

definition isJSONNumberLiteral :: "jsstring \<Rightarrow> bool" where
  "isJSONNumberLiteral s = number_run NStart s"

fun flags_of :: "NumberState \<Rightarrow> bool \<Rightarrow> bool \<Rightarrow> bool \<Rightarrow> bool" where
  "flags_of NZero d p e = (d \<and> \<not> p \<and> \<not> e)"
| "flags_of NInt d p e = (d \<and> \<not> p \<and> \<not> e)"
| "flags_of NDot d p e = (d \<and> p \<and> \<not> e)"
| "flags_of NFrac d p e = (d \<and> p \<and> \<not> e)"
| "flags_of NExpSign d p e = (\<not> d \<and> e)"
| "flags_of NExpDigits d p e = (d \<and> e)"
| "flags_of _ d p e = False"

section \<open>Documents of the tests\<close>

text \<open>
  The chunking loop of the fixture test:
  \<open>for (let i = 0; i < content.length; i += chunkSize) chunks.push(content.slice(i, i + chunkSize))\<close>.
\<close>

function fragments :: "nat \<Rightarrow> jsstring \<Rightarrow> nat \<Rightarrow> jsstring list" where
  "fragments chunkSize content i =
     (if i < length content \<and> 0 < chunkSize
      then slice content i (i + chunkSize) # fragments chunkSize content (i + chunkSize)
      else [])"
  by pat_completeness auto
termination
  by (relation "measure (\<lambda>(c, content, i). length content - i)") auto

declare fragments.simps [simp del]

definition alice_bob_document :: jsstring where
  \<open>alice_bob_document = str ''{"results":[{"id":1,"name":"Alice"},{"id":2,"name":"Bob"}]}''\<close>

definition alice :: "jsnumber JSONValue" where
  "alice = JObject [(str ''id'', JNumber (Numeric (str ''1''))), (str ''name'', JString (str ''Alice''))]"

definition bob :: "jsnumber JSONValue" where
  "bob = JObject [(str ''id'', JNumber (Numeric (str ''2''))), (str ''name'', JString (str ''Bob''))]"

declare parseChunk_loop.simps [code]

section \<open>Postconditions of the lexer\<close>

text \<open>
  What a token attempt started at \<open>lx\<close> may return: no token, with the position put
  back to \<open>sp\<close>, or a token, with the position moved forward inside the buffer.
\<close>

definition readString_post :: "nat \<Rightarrow> Lexer \<Rightarrow> 'n Token option \<times> Lexer \<Rightarrow> bool" where
  "readString_post sp lx res =
     (case res of
        (None, lx') \<Rightarrow> lx' = lx\<lparr>position := sp\<rparr>
      | (Some t, lx') \<Rightarrow>
          buffer lx' = buffer lx \<and> position lx < position lx' \<and> position lx' \<le> length (buffer lx))"

text \<open>What the loop of \<open>readNumber\<close> may return when entered with \<open>hasDigit = d\<close>.\<close>

definition readNumber_loop_post :: "bool \<Rightarrow> Lexer \<Rightarrow> bool \<times> Lexer \<Rightarrow> bool" where
  "readNumber_loop_post d lx res =
     (case res of
        (d', lx') \<Rightarrow>
          buffer lx' = buffer lx \<and> position lx \<le> position lx' \<and>
          (position lx \<le> length (buffer lx) \<longrightarrow> position lx' \<le> length (buffer lx)) \<and>
          (d' \<longrightarrow> d \<or> position lx < position lx'))"

section \<open>The lexer: whitespace, frames and progress\<close>

lemma skipWhitespace_eq:
  "skipWhitespace lx =
     lx\<lparr>position := position lx + length (takeWhile isWhitespace (drop (position lx) (buffer lx)))\<rparr>"
proof (induction lx rule: skipWhitespace.induct)
  case (1 lx)
  show ?case
  proof (cases "position lx < length (buffer lx) \<and> isWhitespace (buffer lx ! position lx)")
    case True
    then have d: "drop (position lx) (buffer lx) =
        buffer lx ! position lx # drop (Suc (position lx)) (buffer lx)"
      by (simp add: Cons_nth_drop_Suc)
    have "skipWhitespace lx = skipWhitespace (lx\<lparr>position := position lx + 1\<rparr>)"
      using True by (subst skipWhitespace.simps) simp
    also have "\<dots> = lx\<lparr>position := position lx + length (takeWhile isWhitespace (drop (position lx) (buffer lx)))\<rparr>"
      using 1 [OF True] True by (simp add: d)
    finally show ?thesis .
  next
    case False
    then have "takeWhile isWhitespace (drop (position lx) (buffer lx)) = []"
      by (cases "position lx < length (buffer lx)") (auto simp: takeWhile_eq_Nil_iff hd_drop_conv_nth)
    with False show ?thesis
      by (subst skipWhitespace.simps) auto
  qed
qed

lemma buffer_skipWhitespace [simp]: "buffer (skipWhitespace lx) = buffer lx"
  by (subst skipWhitespace_eq) simp

lemma position_skipWhitespace_ge: "position lx \<le> position (skipWhitespace lx)"
  by (subst skipWhitespace_eq) simp

lemma position_skipWhitespace_le:
  "position lx \<le> length (buffer lx) \<Longrightarrow> position (skipWhitespace lx) \<le> length (buffer lx)"
proof -
  assume a: "position lx \<le> length (buffer lx)"
  have "length (takeWhile isWhitespace (drop (position lx) (buffer lx)))
          \<le> length (drop (position lx) (buffer lx))"
    by (rule length_takeWhile_le)
  with a show ?thesis by (subst skipWhitespace_eq) simp
qed

lemma skipWhitespace_idem [simp]: "skipWhitespace (skipWhitespace lx) = skipWhitespace lx"
proof (induction lx rule: skipWhitespace.induct)
  case (1 lx)
  show ?case
  proof (cases "position lx < length (buffer lx) \<and> isWhitespace (buffer lx ! position lx)")
    case True
    then have "skipWhitespace lx = skipWhitespace (lx\<lparr>position := position lx + 1\<rparr>)"
      by (subst skipWhitespace.simps) simp
    with 1 [OF True] show ?thesis by simp
  next
    case False
    then have "skipWhitespace lx = lx" by (subst skipWhitespace.simps) auto
    then show ?thesis by simp
  qed
qed


lemma readString_post_None: "readString_post sp lx (None, lx\<lparr>position := sp\<rparr>)"
  by (simp add: readString_post_def)

lemma readString_post_Some:
  "position lx < length (buffer lx) \<Longrightarrow>
     readString_post sp lx (Some t, lx\<lparr>position := Suc (position lx)\<rparr>)"
  by (simp add: readString_post_def)

lemma readString_post_weaken:
  "readString_post sp (lx\<lparr>position := q\<rparr>) res \<Longrightarrow> position lx < q \<Longrightarrow> readString_post sp lx res"
  by (auto simp: readString_post_def split: prod.splits option.splits)

lemma readString_loop_post:
  "readString_post sp lx (readString_loop sp r lx :: 'n Token option \<times> Lexer)"
proof (induction "length (buffer lx) - position lx" arbitrary: lx r rule: less_induct)
  case less
  have IH: "readString_post sp lx
      (readString_loop sp r' (lx\<lparr>position := q\<rparr>) :: 'n Token option \<times> Lexer)"
    if "position lx < q" "position lx < length (buffer lx)" for q r'
  proof -
    have "readString_post sp (lx\<lparr>position := q\<rparr>)
      (readString_loop sp r' (lx\<lparr>position := q\<rparr>) :: 'n Token option \<times> Lexer)"
      using that by (intro less.hyps) simp
    then show ?thesis by (rule readString_post_weaken) fact
  qed
  show ?case
    by (subst readString_loop.simps)
       (simp add: Let_def IH readString_post_None readString_post_Some)
qed

lemma readNumber_loop_post_weaken:
  "readNumber_loop_post d1 (lx\<lparr>position := q\<rparr>) res \<Longrightarrow> position lx < q \<Longrightarrow>
     q \<le> length (buffer lx) \<Longrightarrow> readNumber_loop_post d lx res"
  by (auto simp: readNumber_loop_post_def split: prod.splits)

lemma readNumber_loop_post_refl: "readNumber_loop_post d lx (d, lx)"
  by (simp add: readNumber_loop_post_def)

lemma readNumber_loop_post: "readNumber_loop_post d lx (readNumber_loop d p e lx)"
proof (induction "length (buffer lx) - position lx" arbitrary: lx d p e rule: less_induct)
  case less
  have IH: "readNumber_loop_post d0 lx (readNumber_loop d1 p1 e1 (lx\<lparr>position := q\<rparr>))"
    if "position lx < q" "q \<le> length (buffer lx)" for q d0 d1 p1 e1
  proof -
    have "readNumber_loop_post d1 (lx\<lparr>position := q\<rparr>) (readNumber_loop d1 p1 e1 (lx\<lparr>position := q\<rparr>))"
      using that by (intro less.hyps) simp
    then show ?thesis by (rule readNumber_loop_post_weaken) fact+
  qed
  show ?case
    by (subst readNumber_loop.simps)
       (simp add: Let_def IH readNumber_loop_post_refl)
qed


lemma readNumber_post:
  "position lx < length (buffer lx) \<Longrightarrow> readString_post (position lx) lx (readNumber Number lx)"
  using readNumber_loop_post [of False lx False False]
  by (auto simp: readNumber_def readString_post_def readNumber_loop_post_def Let_def
           split: prod.splits option.splits)

lemma readString_post:
  "position lx < length (buffer lx) \<Longrightarrow>
    readString_post (position lx) lx (readString lx :: 'n Token option \<times> Lexer)"
  using readString_loop_post [of "position lx" "lx\<lparr>position := position lx + 1\<rparr>" "[]", where ?'n = 'n]
  by (auto simp: readString_def readString_post_def Let_def split: prod.splits option.splits)

lemma startsWith_length:
  "startsWith s lx \<Longrightarrow> s \<noteq> [] \<Longrightarrow> position lx + length s \<le> length (buffer lx)"
proof -
  assume a: "startsWith s lx" "s \<noteq> []"
  then have "length (slice (buffer lx) (position lx) (position lx + length s)) = length s"
    by (simp add: startsWith_def str_def)
  with a show ?thesis by (cases s) (auto simp: slice_def)
qed

lemma readString_post_literal:
  "startsWith s lx \<Longrightarrow> s \<noteq> [] \<Longrightarrow> k = length s \<Longrightarrow>
    readString_post sp lx (Some t, lx\<lparr>position := position lx + k\<rparr>)"
  using startsWith_length [of s lx] by (cases s) (auto simp: readString_post_def)

lemma nextToken_post:
  "readString_post (position (skipWhitespace lx)) (skipWhitespace lx)
     (nextToken Number lx :: 'n Token option \<times> Lexer)"
proof (cases "position (skipWhitespace lx) \<ge> length (buffer (skipWhitespace lx))")
  case True
  then show ?thesis by (simp add: nextToken_def readString_post_def)
next
  case False
  then have lt: "position (skipWhitespace lx) < length (buffer (skipWhitespace lx))" by simp
  have none: "readString_post (position (skipWhitespace lx)) (skipWhitespace lx)
     ((None :: 'n Token option), skipWhitespace lx)"
    by (simp add: readString_post_def)
  show ?thesis
    unfolding nextToken_def Let_def
    using lt
    by (simp add: readString_post_Some [OF lt] readNumber_post [OF lt] readString_post [OF lt] none
          readString_post_literal)
qed

lemma nextToken_None:
  "nextToken Number lx = (None, lx') \<Longrightarrow> lx' = skipWhitespace lx"
  using nextToken_post [of lx Number] by (simp add: readString_post_def)

lemma nextToken_Some:
  "nextToken Number lx = (Some t, lx') \<Longrightarrow>
     buffer lx' = buffer lx \<and> position lx < position lx' \<and> position lx' \<le> length (buffer lx)"
  using nextToken_post [of lx Number] position_skipWhitespace_ge [of lx]
  by (simp add: readString_post_def)


section \<open>Failed token attempts (C4)\<close>

text \<open>
  C4, as the claim states it, fails: \<open>nextToken\<close> skips white space before it
  classifies the next code unit and never takes that back. On the buffer \<open>" 12"\<close> with
  the cursor at 0 the call returns no token (the number runs to the end of the buffer) and
  leaves the cursor at 1.
\<close>

theorem C4_counterexample:
  "fst (nextToken Number_builtin \<lparr>buffer = str '' 12'', position = 0\<rparr>) = None \<and>
   position (snd (nextToken Number_builtin \<lparr>buffer = str '' 12'', position = 0\<rparr>)) = 1"
  by code_simp

text \<open>
  C4, amended: whenever \<open>nextToken\<close> returns no token, the buffer is unchanged and the
  cursor is where \<open>skipWhitespace\<close> put it, that is, moved from its value at the start
  of the call over the leading white space only; the failed string or number attempt
  itself consumes nothing.
\<close>

theorem C4_nextToken_failure:
  "nextToken Number lx = (None, lx') \<Longrightarrow>
     lx' = skipWhitespace lx \<and>
     lx' = lx\<lparr>position := position lx +
              length (takeWhile isWhitespace (drop (position lx) (buffer lx)))\<rparr>"
  using nextToken_None [of Number lx lx'] skipWhitespace_eq [of lx] by simp

theorem C4_nextToken_failure_witness:
  "nextToken Number_builtin \<lparr>buffer = str '' 12'', position = 0\<rparr>
     = (None, \<lparr>buffer = str '' 12'', position = 1\<rparr>) \<and>
   \<lparr>buffer = str '' 12'', position = 1\<rparr> = skipWhitespace \<lparr>buffer = str '' 12'', position = 0\<rparr>"
proof -
  have h: "nextToken Number_builtin \<lparr>buffer = str '' 12'', position = 0\<rparr>
     = (None, \<lparr>buffer = str '' 12'', position = 1\<rparr>)"
    by code_simp
  show ?thesis
    by (intro conjI) (rule h, rule conjunct1 [OF C4_nextToken_failure [OF h]])
qed

section \<open>Escapes in strings (C10)\<close>

lemma nth_at [simp]: "(A @ x # B) ! length A = x"
  by (simp add: nth_append)

lemma readString_loop_plain:
  "ascii CHR 0x22 \<notin> set xs \<Longrightarrow> ascii CHR 0x5C \<notin> set xs \<Longrightarrow>
     readString_loop sp r \<lparr>buffer = A @ xs @ B, position = length A\<rparr>
       = (readString_loop sp (r @ xs) \<lparr>buffer = A @ xs @ B, position = length A + length xs\<rparr>
           :: 'n Token option \<times> Lexer)"
proof (induction xs arbitrary: A r)
  case Nil
  then show ?case by simp
next
  case (Cons x xs)
  have "readString_loop sp r \<lparr>buffer = A @ (x # xs) @ B, position = length A\<rparr>
      = (readString_loop sp (r @ [x]) \<lparr>buffer = (A @ [x]) @ xs @ B, position = length (A @ [x])\<rparr>
           :: 'n Token option \<times> Lexer)"
    using Cons.prems by (subst readString_loop.simps) (auto simp: Let_def)
  also have "\<dots> = readString_loop sp ((r @ [x]) @ xs)
       \<lparr>buffer = (A @ [x]) @ xs @ B, position = length (A @ [x]) + length xs\<rparr>"
    using Cons.prems by (intro Cons.IH) auto
  finally show ?case by simp
qed

lemma readString_loop_escape:
  "esc \<notin> {ascii CHR ''n'', ascii CHR 0x22, ascii CHR 0x5C, ascii CHR ''b'', ascii CHR ''f'',
           ascii CHR ''r'', ascii CHR ''t'', ascii CHR ''u''} \<Longrightarrow>
     readString_loop sp r \<lparr>buffer = A @ ascii CHR 0x5C # esc # B, position = length A\<rparr>
       = (readString_loop sp (r @ [esc])
            \<lparr>buffer = A @ ascii CHR 0x5C # esc # B, position = length A + 2\<rparr>
           :: 'n Token option \<times> Lexer)"
  by (subst readString_loop.simps) (simp add: Let_def nth_append)

lemma readString_loop_quote:
  "readString_loop sp r \<lparr>buffer = A @ ascii CHR 0x22 # B, position = length A\<rparr>
     = (Some (StringToken r), \<lparr>buffer = A @ ascii CHR 0x22 # B, position = length A + 1\<rparr>)"
  by (subst readString_loop.simps) (simp add: Let_def ascii_def)


lemma skipWhitespace_non_ws:
  "position lx < length (buffer lx) \<Longrightarrow> \<not> isWhitespace (buffer lx ! position lx) \<Longrightarrow>
     skipWhitespace lx = lx"
  by (subst skipWhitespace.simps) simp

lemma nextToken_quote:
  "position lx < length (buffer lx) \<Longrightarrow> buffer lx ! position lx = ascii CHR 0x22 \<Longrightarrow>
     nextToken Number lx = readString lx"
proof -
  assume a: "position lx < length (buffer lx)" "buffer lx ! position lx = ascii CHR 0x22"
  have "\<not> isWhitespace (ascii CHR 0x22)" by (simp add: isWhitespace_def ascii_def)
  with a have "skipWhitespace lx = lx" by (simp add: skipWhitespace_non_ws)
  with a show ?thesis by (simp add: nextToken_def Let_def ascii_def)
qed

lemma nextToken_unnamed_escape:
  assumes esc: "esc \<notin> {ascii CHR ''n'', ascii CHR 0x22, ascii CHR 0x5C, ascii CHR ''b'',
                         ascii CHR ''f'', ascii CHR ''r'', ascii CHR ''t'', ascii CHR ''u''}"
    and pre: "ascii CHR 0x22 \<notin> set pre" "ascii CHR 0x5C \<notin> set pre"
    and post: "ascii CHR 0x22 \<notin> set post" "ascii CHR 0x5C \<notin> set post"
  shows "nextToken Number
           \<lparr>buffer = before @ [ascii CHR 0x22] @ pre @ [ascii CHR 0x5C, esc] @ post
                        @ [ascii CHR 0x22] @ rest,
            position = length before\<rparr>
         = (Some (StringToken (pre @ [esc] @ post)),
            \<lparr>buffer = before @ [ascii CHR 0x22] @ pre @ [ascii CHR 0x5C, esc] @ post
                        @ [ascii CHR 0x22] @ rest,
             position = length before + length pre + length post + 4\<rparr>)"
proof -
  let ?q = "ascii CHR 0x22" and ?b = "ascii CHR 0x5C"
  let ?buf = "before @ [?q] @ pre @ [?b, esc] @ post @ [?q] @ rest"
  let ?A1 = "before @ [?q]"
  let ?A2 = "before @ [?q] @ pre"
  let ?A3 = "before @ [?q] @ pre @ [?b, esc]"
  let ?A4 = "before @ [?q] @ pre @ [?b, esc] @ post"
  have "nextToken Number \<lparr>buffer = ?buf, position = length before\<rparr>
      = readString \<lparr>buffer = ?buf, position = length before\<rparr>"
    by (rule nextToken_quote) simp_all
  also have "\<dots> = readString_loop (length before) []
      \<lparr>buffer = ?A1 @ pre @ ([?b, esc] @ post @ [?q] @ rest), position = length ?A1\<rparr>"
    by (simp add: readString_def)
  also have "\<dots> = readString_loop (length before) ([] @ pre)
      \<lparr>buffer = ?A1 @ pre @ ([?b, esc] @ post @ [?q] @ rest), position = length ?A1 + length pre\<rparr>"
    using pre by (rule readString_loop_plain)
  also have "\<dots> = readString_loop (length before) pre
      \<lparr>buffer = ?A2 @ ?b # esc # (post @ [?q] @ rest), position = length ?A2\<rparr>"
    by simp
  also have "\<dots> = readString_loop (length before) (pre @ [esc])
      \<lparr>buffer = ?A2 @ ?b # esc # (post @ [?q] @ rest), position = length ?A2 + 2\<rparr>"
    using esc by (rule readString_loop_escape)
  also have "\<dots> = readString_loop (length before) (pre @ [esc])
      \<lparr>buffer = ?A3 @ post @ ([?q] @ rest), position = length ?A3\<rparr>"
    by simp
  also have "\<dots> = readString_loop (length before) ((pre @ [esc]) @ post)
      \<lparr>buffer = ?A3 @ post @ ([?q] @ rest), position = length ?A3 + length post\<rparr>"
    using post by (rule readString_loop_plain)
  also have "\<dots> = readString_loop (length before) (pre @ [esc] @ post)
      \<lparr>buffer = ?A4 @ ?q # rest, position = length ?A4\<rparr>"
    by (simp add: add.assoc)
  also have "\<dots> = (Some (StringToken (pre @ [esc] @ post)),
      \<lparr>buffer = ?A4 @ ?q # rest, position = length ?A4 + 1\<rparr>)"
    by (rule readString_loop_quote)
  finally show ?thesis by simp
qed

lemma readString_loop_escape_step:
  assumes "position lx + 1 < length (buffer lx)" "buffer lx ! position lx = ascii CHR 0x5C"
    and "buffer lx ! (position lx + 1) \<noteq> ascii CHR ''u''"
  shows "readString_loop sp r lx
           = (readString_loop sp (r @ [escapeValue (buffer lx ! (position lx + 1))])
                (lx\<lparr>position := position lx + 2\<rparr>) :: 'n Token option \<times> Lexer)"
  using assms by (subst readString_loop.simps) (simp add: Let_def escapeValue_def)

lemma readString_loop_unicode_rejected:
  assumes "position lx + 1 < length (buffer lx)" "buffer lx ! position lx = ascii CHR 0x5C"
    and "buffer lx ! (position lx + 1) = ascii CHR ''u''"
    and "length (buffer lx) \<le> position lx + 5 \<or>
         \<not> isHex4 (slice (buffer lx) (position lx + 2) (position lx + 6))"
  shows "readString_loop sp r lx = ((None :: 'n Token option), lx\<lparr>position := sp\<rparr>)"
proof -
  have ne: "ascii CHR ''u'' \<noteq> ascii CHR ''n''" "ascii CHR ''u'' \<noteq> ascii CHR 0x22"
    "ascii CHR ''u'' \<noteq> ascii CHR 0x5C" "ascii CHR ''u'' \<noteq> ascii CHR ''b''"
    "ascii CHR ''u'' \<noteq> ascii CHR ''f''" "ascii CHR ''u'' \<noteq> ascii CHR ''r''"
    "ascii CHR ''u'' \<noteq> ascii CHR ''t''"
    by (simp_all add: ascii_def)
  from assms ne show ?thesis
    by (subst readString_loop.simps) (auto simp: Let_def)
qed

lemma at_cursor:
  "(A @ x # y # B) ! length A = x"
  "(A @ x # y # B) ! (length A + 1) = y"
  "length A + 1 < length (A @ x # y # B)"
  by (simp_all add: nth_append)

lemma slice_after_escape:
  "length h = 4 \<Longrightarrow> slice (A @ x # y # (h @ rest)) (length A + 2) (length A + 6) = h"
  by (simp add: slice_def)

lemma nextToken_unicode_rejected:
  assumes pre: "ascii CHR 0x22 \<notin> set pre" "ascii CHR 0x5C \<notin> set pre"
    and h: "length h = 4" "\<not> isHex4 h"
  shows "nextToken Number
           \<lparr>buffer = before @ [ascii CHR 0x22] @ pre @ [ascii CHR 0x5C, ascii CHR ''u''] @ h @ rest,
            position = length before\<rparr>
         = (None,
            \<lparr>buffer = before @ [ascii CHR 0x22] @ pre @ [ascii CHR 0x5C, ascii CHR ''u''] @ h @ rest,
             position = length before\<rparr>)"
proof -
  let ?q = "ascii CHR 0x22" and ?b = "ascii CHR 0x5C" and ?u = "ascii CHR ''u''"
  let ?buf = "before @ [?q] @ pre @ [?b, ?u] @ h @ rest"
  let ?A1 = "before @ [?q]"
  let ?A2 = "before @ [?q] @ pre"
  let ?lx2 = "\<lparr>buffer = ?A2 @ ?b # ?u # (h @ rest), position = length ?A2\<rparr>"
  have "nextToken Number \<lparr>buffer = ?buf, position = length before\<rparr>
      = readString \<lparr>buffer = ?buf, position = length before\<rparr>"
    by (rule nextToken_quote) simp_all
  also have "\<dots> = readString_loop (length before) []
      \<lparr>buffer = ?A1 @ pre @ ([?b, ?u] @ h @ rest), position = length ?A1\<rparr>"
    by (simp add: readString_def)
  also have "\<dots> = readString_loop (length before) ([] @ pre)
      \<lparr>buffer = ?A1 @ pre @ ([?b, ?u] @ h @ rest), position = length ?A1 + length pre\<rparr>"
    using pre by (rule readString_loop_plain)
  also have "\<dots> = readString_loop (length before) pre ?lx2"
    by simp
  also have "\<dots> = (None, ?lx2\<lparr>position := length before\<rparr>)"
  proof (rule readString_loop_unicode_rejected)
    show "position ?lx2 + 1 < length (buffer ?lx2)"
      by (simp only: Lexer.simps) (rule at_cursor)
    show "buffer ?lx2 ! position ?lx2 = ?b"
      by (simp only: Lexer.simps) (rule at_cursor)
    show "buffer ?lx2 ! (position ?lx2 + 1) = ?u"
      by (simp only: Lexer.simps) (rule at_cursor)
    have "slice (buffer ?lx2) (position ?lx2 + 2) (position ?lx2 + 6) = h"
      by (simp only: Lexer.simps) (rule slice_after_escape [OF h(1)])
    with h(2) show "length (buffer ?lx2) \<le> position ?lx2 + 5 \<or>
         \<not> isHex4 (slice (buffer ?lx2) (position ?lx2 + 2) (position ?lx2 + 6))"
      by simp
  qed
  finally show ?thesis by simp
qed

text \<open>
  C10, as the claim states it, fails in its last clause: an escape can be rejected. A
  backslash followed by \<open>u\<close> and four code units that are not all hex digits makes the
  string attempt return no token, here on a buffer that holds the closing quote and more.
  A well-formed \<open>u\<close> escape right before the closing quote gives no token either: the
  cursor is moved seven places on, past the quote.
\<close>

theorem C10_counterexample:
  \<open>nextToken Number_builtin
     \<lparr>buffer = str ''"'' @ [ascii CHR 0x5C] @ str ''uzzzz" '', position = 0\<rparr>
     = (None, \<lparr>buffer = str ''"'' @ [ascii CHR 0x5C] @ str ''uzzzz" '', position = 0\<rparr>) \<and>
   nextToken Number_builtin
     \<lparr>buffer = str ''"'' @ [ascii CHR 0x5C] @ str ''u0041"'', position = 0\<rparr>
     = (None, \<lparr>buffer = str ''"'' @ [ascii CHR 0x5C] @ str ''u0041"'', position = 0\<rparr>)\<close>
  by code_simp

text \<open>
  C10, amended. Wherever the loop of \<open>readString\<close> stands on a backslash followed by a
  code unit other than \<open>u\<close>, whatever was decoded before and whatever follows, it
  appends \<open>escapeValue\<close> of that code unit and goes on two places further: the string
  attempt does not fail on account of this escape. For a code unit other than \<open>n\<close>, the
  quote, the backslash, \<open>b\<close>, \<open>f\<close>, \<open>r\<close>, \<open>t\<close> and \<open>u\<close> the appended unit is that
  code unit itself, so that a string with one such escape between two runs without quotes
  and backslashes gives the string token with the escape decoded. The one escape that is
  rejected is backslash-\<open>u\<close>: the loop returns no token, with the cursor put back, when
  fewer than four code units follow it in the buffer or when the four are not all hex
  digits, and in the second case \<open>nextToken\<close> returns no token whatever the buffer holds
  after them.
\<close>

theorem C10_escapes:
  "(position lx + 1 < length (buffer lx) \<and> buffer lx ! position lx = ascii CHR 0x5C \<and>
      buffer lx ! (position lx + 1) \<noteq> ascii CHR ''u''
      \<longrightarrow> readString_loop sp r lx
            = (readString_loop sp (r @ [escapeValue (buffer lx ! (position lx + 1))])
                 (lx\<lparr>position := position lx + 2\<rparr>) :: 'n Token option \<times> Lexer)) \<and>
   (esc \<notin> {ascii CHR ''n'', ascii CHR 0x22, ascii CHR 0x5C, ascii CHR ''b'',
             ascii CHR ''f'', ascii CHR ''r'', ascii CHR ''t'', ascii CHR ''u''}
      \<longrightarrow> escapeValue esc = esc) \<and>
   (esc \<notin> {ascii CHR ''n'', ascii CHR 0x22, ascii CHR 0x5C, ascii CHR ''b'',
             ascii CHR ''f'', ascii CHR ''r'', ascii CHR ''t'', ascii CHR ''u''} \<and>
      ascii CHR 0x22 \<notin> set pre \<and> ascii CHR 0x5C \<notin> set pre \<and>
      ascii CHR 0x22 \<notin> set post \<and> ascii CHR 0x5C \<notin> set post
      \<longrightarrow> nextToken Number
             \<lparr>buffer = before @ [ascii CHR 0x22] @ pre @ [ascii CHR 0x5C, esc] @ post
                          @ [ascii CHR 0x22] @ rest,
              position = length before\<rparr>
           = (Some (StringToken (pre @ [esc] @ post) :: 'n Token),
              \<lparr>buffer = before @ [ascii CHR 0x22] @ pre @ [ascii CHR 0x5C, esc] @ post
                          @ [ascii CHR 0x22] @ rest,
               position = length before + length pre + length post + 4\<rparr>)) \<and>
   (position lx + 1 < length (buffer lx) \<and> buffer lx ! position lx = ascii CHR 0x5C \<and>
      buffer lx ! (position lx + 1) = ascii CHR ''u'' \<and>
      (length (buffer lx) \<le> position lx + 5 \<or>
       \<not> isHex4 (slice (buffer lx) (position lx + 2) (position lx + 6)))
      \<longrightarrow> readString_loop sp r lx = ((None :: 'n Token option), lx\<lparr>position := sp\<rparr>)) \<and>
   (ascii CHR 0x22 \<notin> set pre \<and> ascii CHR 0x5C \<notin> set pre \<and> length h = 4 \<and> \<not> isHex4 h
      \<longrightarrow> nextToken Number
             \<lparr>buffer = before @ [ascii CHR 0x22] @ pre @ [ascii CHR 0x5C, ascii CHR ''u''] @ h
                          @ rest,
              position = length before\<rparr>
           = ((None :: 'n Token option),
              \<lparr>buffer = before @ [ascii CHR 0x22] @ pre @ [ascii CHR 0x5C, ascii CHR ''u''] @ h
                          @ rest,
               position = length before\<rparr>))"
proof (intro conjI impI)
  assume "position lx + 1 < length (buffer lx) \<and> buffer lx ! position lx = ascii CHR 0x5C \<and>
      buffer lx ! (position lx + 1) \<noteq> ascii CHR ''u''"
  then show "readString_loop sp r lx
            = (readString_loop sp (r @ [escapeValue (buffer lx ! (position lx + 1))])
                 (lx\<lparr>position := position lx + 2\<rparr>) :: 'n Token option \<times> Lexer)"
    by (intro readString_loop_escape_step) simp_all
next
  assume "esc \<notin> {ascii CHR ''n'', ascii CHR 0x22, ascii CHR 0x5C, ascii CHR ''b'',
             ascii CHR ''f'', ascii CHR ''r'', ascii CHR ''t'', ascii CHR ''u''}"
  then show "escapeValue esc = esc" by (simp add: escapeValue_def)
next
  assume "esc \<notin> {ascii CHR ''n'', ascii CHR 0x22, ascii CHR 0x5C, ascii CHR ''b'',
             ascii CHR ''f'', ascii CHR ''r'', ascii CHR ''t'', ascii CHR ''u''} \<and>
      ascii CHR 0x22 \<notin> set pre \<and> ascii CHR 0x5C \<notin> set pre \<and>
      ascii CHR 0x22 \<notin> set post \<and> ascii CHR 0x5C \<notin> set post"
  then show "nextToken Number
             \<lparr>buffer = before @ [ascii CHR 0x22] @ pre @ [ascii CHR 0x5C, esc] @ post
                          @ [ascii CHR 0x22] @ rest,
              position = length before\<rparr>
           = (Some (StringToken (pre @ [esc] @ post) :: 'n Token),
              \<lparr>buffer = before @ [ascii CHR 0x22] @ pre @ [ascii CHR 0x5C, esc] @ post
                          @ [ascii CHR 0x22] @ rest,
               position = length before + length pre + length post + 4\<rparr>)"
    by (intro nextToken_unnamed_escape) simp_all
next
  assume "position lx + 1 < length (buffer lx) \<and> buffer lx ! position lx = ascii CHR 0x5C \<and>
      buffer lx ! (position lx + 1) = ascii CHR ''u'' \<and>
      (length (buffer lx) \<le> position lx + 5 \<or>
       \<not> isHex4 (slice (buffer lx) (position lx + 2) (position lx + 6)))"
  then show "readString_loop sp r lx = ((None :: 'n Token option), lx\<lparr>position := sp\<rparr>)"
    by (intro readString_loop_unicode_rejected) simp_all
next
  assume "ascii CHR 0x22 \<notin> set pre \<and> ascii CHR 0x5C \<notin> set pre \<and> length h = 4 \<and> \<not> isHex4 h"
  then show "nextToken Number
             \<lparr>buffer = before @ [ascii CHR 0x22] @ pre @ [ascii CHR 0x5C, ascii CHR ''u''] @ h
                          @ rest,
              position = length before\<rparr>
           = ((None :: 'n Token option),
              \<lparr>buffer = before @ [ascii CHR 0x22] @ pre @ [ascii CHR 0x5C, ascii CHR ''u''] @ h
                          @ rest,
               position = length before\<rparr>)"
    by (intro nextToken_unicode_rejected) simp_all
qed

theorem C10_escapes_witness:
  \<open>readString_loop 0 (str ''/a'')
     \<lparr>buffer = str ''"'' @ [ascii CHR 0x5C] @ str ''/a'' @ [ascii CHR 0x5C] @ str ''nb"'',
      position = 4\<rparr>
     = (Some (StringToken (str ''/a'' @ [0x0A] @ str ''b'') :: jsnumber Token),
        \<lparr>buffer = str ''"'' @ [ascii CHR 0x5C] @ str ''/a'' @ [ascii CHR 0x5C] @ str ''nb"'',
         position = 8\<rparr>) \<and>
   escapeValue (ascii CHR ''x'') = ascii CHR ''x'' \<and>
   nextToken Number_builtin
     \<lparr>buffer = [] @ [ascii CHR 0x22] @ str ''a'' @ [ascii CHR 0x5C, ascii CHR ''x''] @ str ''b''
                 @ [ascii CHR 0x22] @ str '' '',
      position = length ([] :: jsstring)\<rparr>
     = (Some (StringToken (str ''a'' @ [ascii CHR ''x''] @ str ''b'')),
        \<lparr>buffer = [] @ [ascii CHR 0x22] @ str ''a'' @ [ascii CHR 0x5C, ascii CHR ''x''] @ str ''b''
                 @ [ascii CHR 0x22] @ str '' '',
         position = length ([] :: jsstring) + length (str ''a'') + length (str ''b'') + 4\<rparr>) \<and>
   readString_loop 0 []
     \<lparr>buffer = str ''"'' @ [ascii CHR 0x5C] @ str ''uzzzz"'', position = 1\<rparr>
     = ((None :: jsnumber Token option),
        \<lparr>buffer = str ''"'' @ [ascii CHR 0x5C] @ str ''uzzzz"'', position = 1\<rparr>\<lparr>position := 0\<rparr>) \<and>
   nextToken Number_builtin
     \<lparr>buffer = [] @ [ascii CHR 0x22] @ [] @ [ascii CHR 0x5C, ascii CHR ''u''] @ str ''00zz''
                 @ str ''" '',
      position = length ([] :: jsstring)\<rparr>
     = (None,
        \<lparr>buffer = [] @ [ascii CHR 0x22] @ [] @ [ascii CHR 0x5C, ascii CHR ''u''] @ str ''00zz''
                 @ str ''" '',
         position = length ([] :: jsstring)\<rparr>)\<close>
proof -
  let ?l1 = \<open>\<lparr>buffer = str ''"'' @ [ascii CHR 0x5C] @ str ''/a'' @ [ascii CHR 0x5C] @ str ''nb"'',
      position = 4\<rparr>\<close>
  let ?l4 = \<open>\<lparr>buffer = str ''"'' @ [ascii CHR 0x5C] @ str ''uzzzz"'', position = 1\<rparr>\<close>
  have a1: "position ?l1 + 1 < length (buffer ?l1) \<and> buffer ?l1 ! position ?l1 = ascii CHR 0x5C \<and>
      buffer ?l1 ! (position ?l1 + 1) \<noteq> ascii CHR ''u''"
    by code_simp
  have s1: "readString_loop 0 (str ''/a'') ?l1
      = (readString_loop 0 (str ''/a'' @ [escapeValue (buffer ?l1 ! (position ?l1 + 1))])
           (?l1\<lparr>position := position ?l1 + 2\<rparr>) :: jsnumber Token option \<times> Lexer)"
    using conjunct1 [OF C10_escapes [where lx = ?l1 and sp = 0 and r = "str ''/a''"
          and ?'n = jsnumber]] a1
    by blast
  have e1: \<open>(readString_loop 0 (str ''/a'' @ [escapeValue (buffer ?l1 ! (position ?l1 + 1))])
           (?l1\<lparr>position := position ?l1 + 2\<rparr>) :: jsnumber Token option \<times> Lexer)
      = (Some (StringToken (str ''/a'' @ [0x0A] @ str ''b'')),
         \<lparr>buffer = str ''"'' @ [ascii CHR 0x5C] @ str ''/a'' @ [ascii CHR 0x5C] @ str ''nb"'',
          position = 8\<rparr>)\<close>
    by code_simp
  have w1: \<open>readString_loop 0 (str ''/a'') ?l1
      = (Some (StringToken (str ''/a'' @ [0x0A] @ str ''b'') :: jsnumber Token),
         \<lparr>buffer = str ''"'' @ [ascii CHR 0x5C] @ str ''/a'' @ [ascii CHR 0x5C] @ str ''nb"'',
          position = 8\<rparr>)\<close>
    using s1 e1 by (rule trans)
  have a2: "ascii CHR ''x'' \<notin> {ascii CHR ''n'', ascii CHR 0x22, ascii CHR 0x5C, ascii CHR ''b'',
             ascii CHR ''f'', ascii CHR ''r'', ascii CHR ''t'', ascii CHR ''u''}"
    by (simp add: ascii_def)
  have w2: "escapeValue (ascii CHR ''x'') = ascii CHR ''x''"
    using conjunct1 [OF conjunct2 [OF C10_escapes [where esc = "ascii CHR ''x''"]]] a2
    by blast
  have a3: "ascii CHR 0x22 \<notin> set (str ''a'') \<and> ascii CHR 0x5C \<notin> set (str ''a'') \<and>
      ascii CHR 0x22 \<notin> set (str ''b'') \<and> ascii CHR 0x5C \<notin> set (str ''b'')"
    by (simp add: str_def ascii_def)
  note w3 = conjunct1 [OF conjunct2 [OF conjunct2 [OF
      C10_escapes [where esc = "ascii CHR ''x''" and pre = "str ''a''" and post = "str ''b''"
        and before = "[]" and rest = "str '' ''" and Number = Number_builtin]]], rule_format,
      OF conjI [OF a2 a3]]
  have a4: "position ?l4 + 1 < length (buffer ?l4) \<and> buffer ?l4 ! position ?l4 = ascii CHR 0x5C \<and>
      buffer ?l4 ! (position ?l4 + 1) = ascii CHR ''u'' \<and>
      (length (buffer ?l4) \<le> position ?l4 + 5 \<or>
       \<not> isHex4 (slice (buffer ?l4) (position ?l4 + 2) (position ?l4 + 6)))"
    by code_simp
  note w4 = conjunct1 [OF conjunct2 [OF conjunct2 [OF conjunct2 [OF
      C10_escapes [where lx = ?l4 and sp = 0 and r = "[]" and ?'n = jsnumber]]]], rule_format,
      OF a4]
  have a5: \<open>ascii CHR 0x22 \<notin> set ([] :: jsstring) \<and> ascii CHR 0x5C \<notin> set ([] :: jsstring) \<and>
      length (str ''00zz'') = 4 \<and> \<not> isHex4 (str ''00zz'')\<close>
    by code_simp
  note w5 = conjunct2 [OF conjunct2 [OF conjunct2 [OF conjunct2 [OF
      C10_escapes [where pre = "[]" and h = "str ''00zz''" and before = "[]" and rest = \<open>str ''" ''\<close>
        and Number = Number_builtin]]]], rule_format, OF a5]
  show ?thesis
    by (intro conjI) (rule w1, rule w2, rule w3, rule w4, rule w5)
qed

section \<open>Numbers at the end of the input (C9)\<close>

lemma nth_at2 [simp]: "(A @ x # y # B) ! Suc (length A) = y"
  by (simp add: nth_append)

lemma not_digit [simp]:
  "\<not> isDigit (ascii CHR ''.'')" "\<not> isDigit (ascii CHR ''e'')" "\<not> isDigit (ascii CHR ''E'')"
  "\<not> isDigit (ascii CHR ''+'')" "\<not> isDigit (ascii CHR ''-'')"
  by (simp_all add: isDigit_def ascii_def)

lemma exponent_not_dot [simp]:
  "ascii CHR ''e'' \<noteq> ascii CHR ''.''" "ascii CHR ''E'' \<noteq> ascii CHR ''.''"
  by (simp_all add: ascii_def)

lemma readNumber_loop_digit:
  "isDigit c \<Longrightarrow>
     readNumber_loop d p e \<lparr>buffer = A @ c # B, position = length A\<rparr>
       = readNumber_loop True p e \<lparr>buffer = A @ c # B, position = length A + 1\<rparr>"
  by (subst readNumber_loop.simps) (simp add: Let_def)

lemma readNumber_loop_dot:
  "\<not> p \<Longrightarrow> \<not> e \<Longrightarrow>
     readNumber_loop d p e \<lparr>buffer = A @ ascii CHR ''.'' # B, position = length A\<rparr>
       = readNumber_loop d True e \<lparr>buffer = A @ ascii CHR ''.'' # B, position = length A + 1\<rparr>"
  by (subst readNumber_loop.simps) (simp add: Let_def)

lemma readNumber_loop_exp_sign:
  "c = ascii CHR ''e'' \<or> c = ascii CHR ''E'' \<Longrightarrow> s = ascii CHR ''+'' \<or> s = ascii CHR ''-'' \<Longrightarrow>
     d \<Longrightarrow> \<not> e \<Longrightarrow>
     readNumber_loop d p e \<lparr>buffer = A @ c # s # B, position = length A\<rparr>
       = readNumber_loop False p True \<lparr>buffer = A @ c # s # B, position = length A + 2\<rparr>"
  by (subst readNumber_loop.simps) (auto simp: Let_def)

lemma readNumber_loop_exp_digit:
  "c = ascii CHR ''e'' \<or> c = ascii CHR ''E'' \<Longrightarrow> isDigit s \<Longrightarrow> d \<Longrightarrow> \<not> e \<Longrightarrow>
     readNumber_loop d p e \<lparr>buffer = A @ c # s # B, position = length A\<rparr>
       = readNumber_loop False p True \<lparr>buffer = A @ c # s # B, position = length A + 1\<rparr>"
  by (subst readNumber_loop.simps) (auto simp: Let_def)

lemma readNumber_loop_end:
  "readNumber_loop d p e \<lparr>buffer = A, position = length A\<rparr> = (d, \<lparr>buffer = A, position = length A\<rparr>)"
  by (subst readNumber_loop.simps) simp

lemma readNumber_loop_run:
  "number_run q cs \<Longrightarrow> flags_of q d p e \<Longrightarrow>
     snd (readNumber_loop d p e \<lparr>buffer = A @ cs, position = length A\<rparr>)
       = \<lparr>buffer = A @ cs, position = length A + length cs\<rparr>"
proof (induction "length cs" arbitrary: cs q d p e A rule: less_induct)
  case less
  show ?case
  proof (cases cs)
    case Nil
    then show ?thesis by (simp add: readNumber_loop_end)
  next
    case (Cons c cs')
    have step1: "snd (readNumber_loop d' p' e' \<lparr>buffer = A @ c # cs', position = length A + 1\<rparr>)
        = \<lparr>buffer = A @ cs, position = length A + length cs\<rparr>"
      if "number_run q' cs'" "flags_of q' d' p' e'" for q' d' p' e'
      using less.hyps [of cs' q' d' p' e' "A @ [c]"] that Cons by simp
    have step2: "snd (readNumber_loop d' p' e' \<lparr>buffer = A @ c # s # cs'', position = length A + 2\<rparr>)
        = \<lparr>buffer = A @ cs, position = length A + length cs\<rparr>"
      if "cs' = s # cs''" "number_run q' cs''" "flags_of q' d' p' e'" for q' d' p' e' s cs''
      using less.hyps [of cs'' q' d' p' e' "A @ [c, s]"] that Cons by simp
    have expo: ?thesis
      if c: "c = ascii CHR ''e'' \<or> c = ascii CHR ''E''" and r: "number_run NExp cs'"
        and f: "d" "\<not> e"
    proof (cases cs')
      case Nil
      with r show ?thesis by simp
    next
      case (Cons s cs'')
      show ?thesis
      proof (cases "s = ascii CHR ''+'' \<or> s = ascii CHR ''-''")
        case True
        with r Cons have "number_run NExpSign cs''" by auto
        then have "snd (readNumber_loop False p True \<lparr>buffer = A @ c # s # cs'', position = length A + 2\<rparr>)
            = \<lparr>buffer = A @ cs, position = length A + length cs\<rparr>"
          using Cons by (intro step2 [of s cs'' NExpSign]) simp_all
        then show ?thesis
          using readNumber_loop_exp_sign [OF c True f, of p A cs''] Cons \<open>cs = c # cs'\<close> by simp
      next
        case False
        with r Cons have ds: "isDigit s" and r': "number_run NExpSign cs'"
          by (auto split: if_splits)
        have "snd (readNumber_loop False p True \<lparr>buffer = A @ c # cs', position = length A + 1\<rparr>)
            = \<lparr>buffer = A @ cs, position = length A + length cs\<rparr>"
          using r' by (intro step1 [of NExpSign]) simp_all
        then show ?thesis
          using readNumber_loop_exp_digit [OF c ds f, of p A cs''] Cons \<open>cs = c # cs'\<close> by simp
      qed
    qed
    have digit: ?thesis if "isDigit c" "number_run q' cs'" "flags_of q' True p e" for q'
      using step1 [OF that(2,3)] readNumber_loop_digit [OF that(1), of d p e A cs'] Cons by simp
    have dot: ?thesis if "c = ascii CHR ''.''" "number_run NDot cs'" "\<not> p" "\<not> e" "d"
      using step1 [of NDot d True e] readNumber_loop_dot [OF that(3,4), of d A cs'] that Cons by simp
    obtain q' where st: "number_step q c = Some q'" and r': "number_run q' cs'"
      using less.prems(1) Cons by (auto split: option.splits)
    consider (dg) "isDigit c" "flags_of q' True p e"
      | (dt) "c = ascii CHR ''.''" "q' = NDot" "\<not> p" "\<not> e" "d"
      | (ex) "c = ascii CHR ''e'' \<or> c = ascii CHR ''E''" "q' = NExp" "d" "\<not> e"
      using st less.prems(2) by (cases q) (auto split: if_splits)
    then show ?thesis
    proof cases
      case dg
      then show ?thesis using r' by (intro digit [of q'])
    next
      case dt
      then show ?thesis using r' by (intro dot) simp_all
    next
      case ex
      then show ?thesis using r' by (intro expo) simp_all
    qed
  qed
qed

lemma minus_neq [simp]:
  "ascii CHR ''-'' \<noteq> ascii CHR ''.''" "ascii CHR ''-'' \<noteq> ascii CHR ''e''"
  "ascii CHR ''-'' \<noteq> ascii CHR ''E''"
  by (simp_all add: ascii_def)

lemma readNumber_loop_minus:
  "readNumber_loop False False False \<lparr>buffer = A @ ascii CHR ''-'' # B, position = length A\<rparr>
     = (False, \<lparr>buffer = A @ ascii CHR ''-'' # B, position = length A\<rparr>)"
  by (subst readNumber_loop.simps) (simp add: Let_def)

lemma isJSONNumberLiteral_head:
  "isJSONNumberLiteral s \<Longrightarrow> \<exists>c cs. s = c # cs \<and> (c = ascii CHR ''-'' \<or> isDigit c)"
  by (cases s) (auto simp: isJSONNumberLiteral_def isDigit_def ascii_def split: if_splits)

lemma readNumber_number_at_end:
  assumes "isJSONNumberLiteral s"
  shows "readNumber Number \<lparr>buffer = A @ s, position = length A\<rparr>
           = (None, \<lparr>buffer = A @ s, position = length A\<rparr>)"
proof -
  from assms obtain c cs where s: "s = c # cs" and c: "c = ascii CHR ''-'' \<or> isDigit c"
    using isJSONNumberLiteral_head by blast
  show ?thesis
  proof (cases "c = ascii CHR ''-''")
    case True
    with s show ?thesis
      using readNumber_loop_minus [of A cs] by (simp add: readNumber_def)
  next
    case False
    with c have d: "isDigit c" by simp
    from assms s False d obtain q where q: "number_run q cs" "flags_of q True False False"
      by (auto simp: isJSONNumberLiteral_def split: if_splits)
    let ?L = "\<lparr>buffer = (A @ [c]) @ cs, position = length (A @ [c])\<rparr>"
    have 1: "readNumber_loop False False False \<lparr>buffer = A @ s, position = length A\<rparr>
        = readNumber_loop True False False ?L"
      using readNumber_loop_digit [OF d, of False False False A cs] s by simp
    have "snd (readNumber_loop True False False ?L)
        = \<lparr>buffer = (A @ [c]) @ cs, position = length (A @ [c]) + length cs\<rparr>"
      using q by (rule readNumber_loop_run)
    then have 2: "readNumber_loop True False False ?L
        = (fst (readNumber_loop True False False ?L),
           \<lparr>buffer = A @ s, position = length (A @ s)\<rparr>)"
      using s by (simp add: prod_eq_iff)
    show ?thesis
      unfolding readNumber_def 1 by (subst 2) simp
  qed
qed


lemma digit_not_whitespace: "isDigit c \<Longrightarrow> \<not> isWhitespace c"
proof
  assume "isDigit c" and w: "isWhitespace c"
  then have d: "0x30 \<le> c" "c \<le> 0x39" by (simp_all add: isDigit_def ascii_def)
  have n1: "\<not> c \<le> 0x0D"
  proof
    assume "c \<le> 0x0D"
    with d(1) have "(0x30 :: code_unit) \<le> 0x0D" by (rule order_trans)
    then show False by simp
  qed
  have n2: "\<not> 0x2000 \<le> c"
  proof
    assume "0x2000 \<le> c"
    then have "(0x2000 :: code_unit) \<le> 0x39" using d(2) by (rule order_trans)
    then show False by simp
  qed
  from w n1 n2 d show False by (auto simp: isWhitespace_def)
qed

lemma number_head_not_whitespace:
  "c = ascii CHR ''-'' \<or> isDigit c \<Longrightarrow> \<not> isWhitespace c"
  using digit_not_whitespace [of c] by (auto simp: isWhitespace_def ascii_def)

lemma digit_not_structural:
  "isDigit c \<Longrightarrow>
     c \<noteq> ascii CHR ''{'' \<and> c \<noteq> ascii CHR ''}'' \<and> c \<noteq> ascii CHR ''['' \<and> c \<noteq> ascii CHR '']'' \<and>
     c \<noteq> ascii CHR '':'' \<and> c \<noteq> ascii CHR '','' \<and> c \<noteq> ascii CHR 0x22"
  by (auto simp: isDigit_def ascii_def)

lemma nextToken_number_at_end:
  assumes ws: "list_all isWhitespace ws" and num: "isJSONNumberLiteral num"
  shows "nextToken Number \<lparr>buffer = A @ ws @ num, position = length A\<rparr>
           = (None, \<lparr>buffer = A @ ws @ num, position = length A + length ws\<rparr>)"
proof -
  from num obtain c cs where s: "num = c # cs" and c: "c = ascii CHR ''-'' \<or> isDigit c"
    using isJSONNumberLiteral_head by blast
  have nw: "\<not> isWhitespace c" using c by (rule number_head_not_whitespace)
  have "takeWhile isWhitespace (ws @ num) = ws"
    using ws nw s by (simp add: takeWhile_append2 list_all_iff)
  then have sk: "skipWhitespace \<lparr>buffer = A @ ws @ num, position = length A\<rparr>
      = \<lparr>buffer = (A @ ws) @ num, position = length (A @ ws)\<rparr>"
    by (subst skipWhitespace_eq) simp
  have rn: "readNumber Number \<lparr>buffer = (A @ ws) @ num, position = length (A @ ws)\<rparr>
      = (None, \<lparr>buffer = (A @ ws) @ num, position = length (A @ ws)\<rparr>)"
    using num by (rule readNumber_number_at_end)
  have hd: "((A @ ws) @ num) ! length (A @ ws) = c"
    using s by (simp only: nth_append_length)
  have "c \<noteq> ascii CHR ''{'' \<and> c \<noteq> ascii CHR ''}'' \<and> c \<noteq> ascii CHR ''['' \<and> c \<noteq> ascii CHR '']'' \<and>
     c \<noteq> ascii CHR '':'' \<and> c \<noteq> ascii CHR '','' \<and> c \<noteq> ascii CHR 0x22"
    using c digit_not_structural [of c] by (auto simp: ascii_def)
  then show ?thesis
    unfolding nextToken_def sk Let_def hd
    using c rn s by simp
qed

lemma nextToken_bracket:
  "nextToken Number \<lparr>buffer = ascii CHR ''['' # B, position = 0\<rparr>
     = (Some BeginArray, \<lparr>buffer = ascii CHR ''['' # B, position = 1\<rparr>)"
proof -
  let ?lx = "\<lparr>buffer = ascii CHR ''['' # B, position = 0\<rparr>"
  have "\<not> isWhitespace (ascii CHR ''['')" by (simp add: isWhitespace_def ascii_def)
  then have sk: "skipWhitespace ?lx = ?lx" by (intro skipWhitespace_non_ws) simp_all
  have ne: "ascii CHR ''['' \<noteq> ascii CHR ''{''" "ascii CHR ''['' \<noteq> ascii CHR ''}''"
    by (simp_all add: ascii_def)
  show ?thesis unfolding nextToken_def sk Let_def using ne by simp
qed

text \<open>
  C9, as the claim states it, fails in its last clause: a document that ends in a bare
  number is not always rejected. \<open>parse\<close> returns the first value it reads and never
  looks at what follows: \<open>[] 5\<close> gives the empty array and \<open>true 5\<close> gives \<open>true\<close>.
\<close>

theorem C9_counterexample:
  "Parser_parse Number_builtin (str ''[] 5'') new_Lexer
     = Some (Inr (JArray []), \<lparr>buffer = str ''[] 5'', position = 2\<rparr>) \<and>
   Parser_parse Number_builtin (str ''true 5'') new_Lexer
     = Some (Inr (JBoolean True), \<lparr>buffer = str ''true 5'', position = 4\<rparr>)"
  by code_simp

text \<open>
  C9, amended: on an input that is a JSON number literal after any leading white space,
  and nothing else, the one-shot \<open>parse\<close> of a fresh parser throws \<open>Invalid JSON\<close>:
  the numeric run ends at the end of the buffer, so the lexer gives no token. A longer
  document that ends in such a number is rejected where the parser has to read the number
  as a value: \<open>parseValue\<close>, called at a place from which only white space and the
  literal follow, returns \<open>undefined\<close>, and so \<open>parse\<close> throws on an opening bracket
  followed by white space and the literal. Where a complete value comes first, the number
  is not read and the document is not rejected.
\<close>

theorem C9_number_document_rejected:
  assumes "list_all isWhitespace ws" and "isJSONNumberLiteral num"
  shows "Parser_parse Number (ws @ num) new_Lexer
           = Some (Inl (Error ''Invalid JSON''), \<lparr>buffer = ws @ num, position = length ws\<rparr>) \<and>
         Parser_parseValue (Suc n) Number \<lparr>buffer = A @ ws @ num, position = length A\<rparr>
           = Some (None, \<lparr>buffer = A @ ws @ num, position = length A + length ws\<rparr>) \<and>
         Parser_parse Number (ascii CHR ''['' # ws @ num) new_Lexer
           = Some (Inl (Error ''Invalid JSON''),
                   \<lparr>buffer = ascii CHR ''['' # ws @ num, position = 1 + length ws\<rparr>)"
proof -
  have g: "nextToken Number \<lparr>buffer = A @ ws @ num, position = length A\<rparr>
           = (None, \<lparr>buffer = A @ ws @ num, position = length A + length ws\<rparr>)" for A
    using assms by (rule nextToken_number_at_end)
  have f: "fuel \<lparr>buffer = ws @ num, position = 0\<rparr> = Suc (2 * length (ws @ num) + 1)"
    by (simp add: fuel_def)
  have g0: "nextToken Number \<lparr>buffer = ws @ num, position = 0\<rparr>
           = (None, \<lparr>buffer = ws @ num, position = length ws\<rparr>)"
    using g [of "[]"] by simp
  let ?b = "ascii CHR ''[''"
  have f1: "fuel \<lparr>buffer = ?b # ws @ num, position = 0\<rparr>
      = Suc (Suc (Suc (2 * length (ws @ num) + 1)))"
    by (simp add: fuel_def)
  have g1: "nextToken Number \<lparr>buffer = ?b # ws @ num, position = Suc 0\<rparr>
           = (None, \<lparr>buffer = ?b # ws @ num, position = Suc (length ws)\<rparr>)"
    using g [of "[?b]"] by simp
  have g2: "nextToken Number \<lparr>buffer = ?b # ws @ num, position = Suc (length ws)\<rparr>
           = (None, \<lparr>buffer = ?b # ws @ num, position = Suc (length ws)\<rparr>)"
    using nextToken_number_at_end [OF _ assms(2), of "[]" Number "?b # ws"] by simp
  have p3: "Parser_parse Number (?b # ws @ num) new_Lexer
           = Some (Inl (Error ''Invalid JSON''),
                   \<lparr>buffer = ?b # ws @ num, position = 1 + length ws\<rparr>)"
    by (simp add: Parser_parse_def addChunk_def new_Lexer_def f1 nextToken_bracket g1 g2
          Parser_nextSignificantToken_def)
  from g [of A] g0 p3 show ?thesis
    by (simp add: Parser_parse_def addChunk_def new_Lexer_def f Parser_nextSignificantToken_def)
qed

theorem C9_number_document_rejected_witness:
  "Parser_parse Number_builtin (str ''123'') new_Lexer
     = Some (Inl (Error ''Invalid JSON''), \<lparr>buffer = str ''123'', position = 0\<rparr>) \<and>
   Parser_parse Number_builtin (str ''  '' @ str ''-1.5e+3'') new_Lexer
     = Some (Inl (Error ''Invalid JSON''),
             \<lparr>buffer = str ''  '' @ str ''-1.5e+3'', position = length (str ''  '')\<rparr>) \<and>
   Parser_parse Number_builtin (ascii CHR ''['' # str ''  '' @ str ''-1.5e+3'') new_Lexer
     = Some (Inl (Error ''Invalid JSON''),
             \<lparr>buffer = ascii CHR ''['' # str ''  '' @ str ''-1.5e+3'',
              position = 1 + length (str ''  '')\<rparr>)"
proof -
  have w0: "list_all isWhitespace []" by simp
  have n0: "isJSONNumberLiteral (str ''123'')" by code_simp
  have w1: "list_all isWhitespace (str ''  '')" by code_simp
  have n1: "isJSONNumberLiteral (str ''-1.5e+3'')" by code_simp
  from conjunct1 [OF C9_number_document_rejected [OF w0 n0, of Number_builtin]]
       conjunct1 [OF C9_number_document_rejected [OF w1 n1, of Number_builtin]]
       conjunct2 [OF conjunct2 [OF C9_number_document_rejected [OF w1 n1, of Number_builtin]]]
  show ?thesis by simp
qed

section \<open>The recursive descent returns\<close>

lemma advances_refl [simp]: "advances lx lx"
  by (simp add: advances_def)

lemma advances_trans: "advances a b \<Longrightarrow> advances b c \<Longrightarrow> advances a c"
  by (auto simp: advances_def)

lemma advances_remaining: "advances a b \<Longrightarrow> remaining b \<le> remaining a"
  by (auto simp: advances_def remaining_def)

lemma advances_skipWhitespace [simp]: "advances lx (skipWhitespace lx)"
  by (simp add: advances_def position_skipWhitespace_ge)

lemma nextToken_cases:
  obtains (none) "nextToken Number lx = (None, skipWhitespace lx)"
  | (some) t lx' where "nextToken Number lx = (Some t, lx')" "advances lx lx'"
      "remaining lx' < remaining lx" "position lx < length (buffer lx)"
proof (cases "nextToken Number lx")
  case (Pair a lx')
  show ?thesis
  proof (cases a)
    case None
    with Pair nextToken_None [of Number lx lx'] none show ?thesis by simp
  next
    case (Some t)
    with Pair nextToken_Some [of Number lx t lx'] have
      "buffer lx' = buffer lx" "position lx < position lx'" "position lx' \<le> length (buffer lx)"
      by simp_all
    then show ?thesis
      using Pair Some by (intro some [of t lx']) (auto simp: advances_def remaining_def)
  qed
qed

lemma nextSignificantToken_False [simp]:
  "nextSignificantToken Number False lx = nextToken Number lx"
  by (simp add: nextSignificantToken_def split: prod.splits)

lemma nextSignificantToken_True:
  "nextSignificantToken Number True lx =
     (case nextToken Number lx of
        (None, lx1) \<Rightarrow> (None, skipWhitespace lx)
      | (Some t, lx1) \<Rightarrow> (Some t, lx))"
proof (cases rule: nextToken_cases [of Number lx])
  case none
  then show ?thesis by (simp add: nextSignificantToken_def)
next
  case (some t lx')
  then have "setPosition (position lx) lx' = lx"
    by (simp add: setPosition_def advances_def)
  with some show ?thesis by (simp add: nextSignificantToken_def)
qed

lemma peek_cases:
  obtains (none) "nextSignificantToken Number True lx = (None, skipWhitespace lx)"
      "nextToken Number lx = (None, skipWhitespace lx)"
  | (some) t lx' where "nextSignificantToken Number True lx = (Some t, lx)"
      "nextToken Number lx = (Some t, lx')" "advances lx lx'"
      "remaining lx' < remaining lx" "position lx < length (buffer lx)"
proof (cases rule: nextToken_cases [of Number lx])
  case none
  then show ?thesis using that(1) by (simp add: nextSignificantToken_True)
next
  case (some t lx')
  then show ?thesis using that(2) [of t lx'] by (simp add: nextSignificantToken_True)
qed

lemma expectToken_cases:
  obtains (no) lx' where "expectToken Number ty lx = (False, lx')" "advances lx lx'"
  | (yes) lx' where "expectToken Number ty lx = (True, lx')" "advances lx lx'"
      "remaining lx' < remaining lx"
proof (cases rule: nextToken_cases [of Number lx])
  case none
  then show ?thesis using no [of "skipWhitespace lx"] by (simp add: expectToken_def)
next
  case (some t lx')
  then show ?thesis
    using no [of lx'] yes [of lx'] by (cases "tokenType t = ty") (simp_all add: expectToken_def)
qed

lemma returns_fromI: "advances lx lx' \<Longrightarrow> returns_from lx (Some (v, lx'))"
  by (auto simp: returns_from_def)

lemma returns_from_trans:
  "returns_from lx1 res \<Longrightarrow> advances lx lx1 \<Longrightarrow> returns_from lx res"
  by (auto simp: returns_from_def intro: advances_trans)


lemma parseObject_loop_step:
  assumes v: "\<And>d lx. 2 * remaining lx + 2 \<le> n \<Longrightarrow>
      returns_from lx (parseValue n Number d lx :: ('n JSONValue option \<times> Lexer) option)"
    and l: "\<And>d obj lx. 2 * remaining lx + 3 \<le> n \<Longrightarrow>
      returns_from lx (parseObject_loop n Number d obj lx :: ('n JSONValue option \<times> Lexer) option)"
    and r: "2 * remaining lx + 3 \<le> Suc n"
  shows "returns_from lx (parseObject_loop (Suc n) Number d obj lx)"
proof (cases rule: nextToken_cases [of Number lx])
  case none
  then show ?thesis by (simp add: returns_from_def)
next
  case (some t lx1)
  show ?thesis
  proof (cases "\<exists>key. t = StringToken key")
    case False
    with some show ?thesis by (cases t) (simp_all add: returns_fromI)
  next
    case True
    then obtain key where t: "t = StringToken key" by blast
    show ?thesis
    proof (cases rule: expectToken_cases [of Number T_name_separator lx1])
      case (no lx2)
      with some t show ?thesis
        by (simp add: returns_fromI advances_trans [of lx lx1 lx2])
    next
      case (yes lx2)
      have a2: "advances lx lx2" using some(2) yes(2) by (rule advances_trans)
      have "2 * remaining lx2 + 2 \<le> n" using some(3) yes(3) r by simp
      from v [OF this, of d] obtain w lx3 where
        pv: "parseValue n Number d lx2 = Some (w, lx3)" and a3: "advances lx2 lx3"
        by (auto simp: returns_from_def)
      have a13: "advances lx lx3" using a2 a3 by (rule advances_trans)
      show ?thesis
      proof (cases w)
        case None
        with some t yes pv a13 show ?thesis by (simp add: returns_fromI)
      next
        case (Some val)
        show ?thesis
        proof (cases rule: nextToken_cases [of Number lx3])
          case none
          with some t yes pv Some a13 show ?thesis
            by (simp add: returns_fromI advances_trans [of lx lx3 "skipWhitespace lx3"])
        next
          case (some sep lx4)
          have a4: "advances lx lx4" using a13 some(2) by (rule advances_trans)
          have "2 * remaining lx4 + 3 \<le> n"
            using some(3) advances_remaining [OF a3] yes(3) \<open>remaining lx1 < remaining lx\<close> r
            by simp
          from l [OF this] have "returns_from lx (parseObject_loop n Number d' ob lx4)" for ob d'
            using a4 by (rule returns_from_trans)
          with \<open>nextToken Number lx = (Some t, lx1)\<close> t yes pv Some some a4 show ?thesis
            by (simp add: returns_fromI)
        qed
      qed
    qed
  qed
qed


lemma parseArray_loop_step:
  assumes v: "\<And>d lx. 2 * remaining lx + 2 \<le> n \<Longrightarrow>
      returns_from lx (parseValue n Number d lx :: ('n JSONValue option \<times> Lexer) option)"
    and l: "\<And>d arr lx. 2 * remaining lx + 3 \<le> n \<Longrightarrow>
      returns_from lx (parseArray_loop n Number d arr lx :: ('n JSONValue option \<times> Lexer) option)"
    and r: "2 * remaining lx + 3 \<le> Suc n"
  shows "returns_from lx (parseArray_loop (Suc n) Number d arr lx)"
proof -
  have "2 * remaining lx + 2 \<le> n" using r by simp
  from v [OF this, of d] obtain w lx1 where
    pv: "parseValue n Number d lx = Some (w, lx1)" and a1: "advances lx lx1"
    by (auto simp: returns_from_def)
  show ?thesis
  proof (cases w)
    case None
    with pv a1 show ?thesis by (simp add: returns_fromI)
  next
    case (Some val)
    show ?thesis
    proof (cases rule: nextToken_cases [of Number lx1])
      case none
      with pv Some a1 show ?thesis
        by (simp add: returns_fromI advances_trans [of lx lx1 "skipWhitespace lx1"])
    next
      case (some sep lx2)
      have a2: "advances lx lx2" using a1 some(2) by (rule advances_trans)
      have "2 * remaining lx2 + 3 \<le> n"
        using some(3) advances_remaining [OF a1] r by simp
      from l [OF this] have "returns_from lx (parseArray_loop n Number d' ar lx2)" for ar d'
        using a2 by (rule returns_from_trans)
      with pv Some some a2 show ?thesis
        by (simp add: returns_fromI)
    qed
  qed
qed

lemma parseObject_step:
  assumes l: "\<And>d obj lx. 2 * remaining lx + 3 \<le> n \<Longrightarrow>
      returns_from lx (parseObject_loop n Number d obj lx :: ('n JSONValue option \<times> Lexer) option)"
    and r: "2 * remaining lx + 3 \<le> n"
  shows "returns_from lx (parseObject n Number d lx)"
proof (cases rule: peek_cases [of Number lx])
  case none
  then show ?thesis by (simp add: returns_fromI)
next
  case (some t lx')
  from l [OF r] have "returns_from lx (parseObject_loop n Number d [] lx)" .
  with some show ?thesis by (simp add: returns_fromI)
qed

lemma parseArray_step:
  assumes l: "\<And>d arr lx. 2 * remaining lx + 3 \<le> n \<Longrightarrow>
      returns_from lx (parseArray_loop n Number d arr lx :: ('n JSONValue option \<times> Lexer) option)"
    and r: "2 * remaining lx + 3 \<le> n"
  shows "returns_from lx (parseArray n Number d lx)"
proof (cases rule: peek_cases [of Number lx])
  case none
  then show ?thesis by (simp add: returns_fromI)
next
  case (some t lx')
  from l [OF r] have "returns_from lx (parseArray_loop n Number d [] lx)" .
  with some show ?thesis by (simp add: returns_fromI)
qed

lemma parseValue_step:
  assumes ob: "\<And>d lx. 2 * remaining lx + 3 \<le> n \<Longrightarrow>
      returns_from lx (parseObject n Number d lx :: ('n JSONValue option \<times> Lexer) option)"
    and ar: "\<And>d lx. 2 * remaining lx + 3 \<le> n \<Longrightarrow>
      returns_from lx (parseArray n Number d lx :: ('n JSONValue option \<times> Lexer) option)"
    and r: "2 * remaining lx + 2 \<le> Suc n"
  shows "returns_from lx (parseValue (Suc n) Number d lx)"
proof (cases rule: nextToken_cases [of Number lx])
  case none
  then show ?thesis by (simp add: returns_fromI)
next
  case (some t lx1)
  have "2 * remaining lx1 + 3 \<le> n" using some(3) r by simp
  from ob [OF this] ar [OF this]
  have "returns_from lx (parseObject n Number d lx1)" "returns_from lx (parseArray n Number d lx1)"
    using some(2) by (auto intro: returns_from_trans)
  with some show ?thesis by (simp add: returns_fromI)
qed

lemma parse_family_returns:
  "(\<forall>d lx. 2 * remaining lx + 2 \<le> n \<longrightarrow>
      returns_from lx (parseValue n Number d lx :: ('n JSONValue option \<times> Lexer) option)) \<and>
   (\<forall>d lx. 2 * remaining lx + 3 \<le> n \<longrightarrow>
      returns_from lx (parseObject n Number d lx :: ('n JSONValue option \<times> Lexer) option)) \<and>
   (\<forall>d obj lx. 2 * remaining lx + 3 \<le> n \<longrightarrow>
      returns_from lx (parseObject_loop n Number d obj lx :: ('n JSONValue option \<times> Lexer) option)) \<and>
   (\<forall>d lx. 2 * remaining lx + 3 \<le> n \<longrightarrow>
      returns_from lx (parseArray n Number d lx :: ('n JSONValue option \<times> Lexer) option)) \<and>
   (\<forall>d arr lx. 2 * remaining lx + 3 \<le> n \<longrightarrow>
      returns_from lx (parseArray_loop n Number d arr lx :: ('n JSONValue option \<times> Lexer) option))"
proof (induction n)
  case 0
  then show ?case by simp
next
  case (Suc n)
  have ol: "returns_from lx (parseObject_loop (Suc n) Number d obj lx :: ('n JSONValue option \<times> Lexer) option)"
    if "2 * remaining lx + 3 \<le> Suc n" for d obj lx
    using Suc that by (intro parseObject_loop_step) blast+
  have al: "returns_from lx (parseArray_loop (Suc n) Number d arr lx :: ('n JSONValue option \<times> Lexer) option)"
    if "2 * remaining lx + 3 \<le> Suc n" for d arr lx
    using Suc that by (intro parseArray_loop_step) blast+
  have o: "returns_from lx (parseObject (Suc n) Number d lx :: ('n JSONValue option \<times> Lexer) option)"
    if "2 * remaining lx + 3 \<le> Suc n" for d lx
    using that ol by (intro parseObject_step) blast+
  have a: "returns_from lx (parseArray (Suc n) Number d lx :: ('n JSONValue option \<times> Lexer) option)"
    if "2 * remaining lx + 3 \<le> Suc n" for d lx
    using that al by (intro parseArray_step) blast+
  have v: "returns_from lx (parseValue (Suc n) Number d lx :: ('n JSONValue option \<times> Lexer) option)"
    if "2 * remaining lx + 2 \<le> Suc n" for d lx
    using Suc that by (intro parseValue_step) blast+
  from ol al o a v show ?case by blast
qed

lemma parseValue_returns:
  "\<exists>v lx'. parseValue (fuel lx) Number d lx = Some (v, lx') \<and> advances lx lx'"
proof -
  have "2 * remaining lx + 2 \<le> fuel lx" by (simp add: fuel_def remaining_def)
  with parse_family_returns [of "fuel lx" Number] show ?thesis
    by (auto simp: returns_from_def)
qed

lemma skipValue_returns:
  "\<exists>b lx'. skipValue Number lx = Some (b, lx') \<and> advances lx lx'"
  using parseValue_returns [of lx Number True] by (auto simp: skipValue_def)

section \<open>The one-shot parser returns\<close>

lemma Parser_nextSignificantToken_False [simp]:
  "Parser_nextSignificantToken Number False lx = nextToken Number lx"
  by (simp add: Parser_nextSignificantToken_def split: prod.splits)

lemma Parser_peek_cases:
  obtains (none) "Parser_nextSignificantToken Number True lx = (None, skipWhitespace lx)"
  | (some) t lx1 where "Parser_nextSignificantToken Number True lx = (Some t, lx1)"
      "advances lx lx1"
proof (cases rule: nextToken_cases [of Number lx])
  case none
  then show ?thesis using that(1) by (simp add: Parser_nextSignificantToken_def)
next
  case (some t lx')
  then have "advances lx (setPosition (position lx' - 1) lx')"
    by (auto simp: advances_def remaining_def setPosition_def)
  with some show ?thesis
    using that(2) [of t "setPosition (position lx' - 1) lx'"]
    by (simp add: Parser_nextSignificantToken_def)
qed

lemma Parser_parseObject_loop_step:
  assumes v: "\<And>lx. 2 * remaining lx + 2 \<le> n \<Longrightarrow>
      returns_from lx (Parser_parseValue n Number lx :: ('n JSONValue option \<times> Lexer) option)"
    and l: "\<And>obj lx. 2 * remaining lx + 3 \<le> n \<Longrightarrow>
      returns_from lx (Parser_parseObject_loop n Number obj lx :: ('n JSONValue option \<times> Lexer) option)"
    and r: "2 * remaining lx + 3 \<le> Suc n"
  shows "returns_from lx (Parser_parseObject_loop (Suc n) Number obj lx)"
proof (cases rule: nextToken_cases [of Number lx])
  case none
  then show ?thesis by (simp add: returns_from_def)
next
  case (some t lx1)
  note k = some
  show ?thesis
  proof (cases "\<exists>key. t = StringToken key")
    case False
    with some show ?thesis by (cases t) (simp_all add: returns_fromI)
  next
    case True
    then obtain key where t: "t = StringToken key" by blast
    show ?thesis
    proof (cases rule: nextToken_cases [of Number lx1])
      case none
      with k t show ?thesis
        by (simp add: returns_fromI advances_trans [of lx lx1 "skipWhitespace lx1"])
    next
      case (some t2 lx2)
      note c = some
      have a2: "advances lx lx2" using k(2) c(2) by (rule advances_trans)
      show ?thesis
      proof (cases "t2 = NameSeparator")
        case False
        with k t c a2 show ?thesis by (cases t2) (simp_all add: returns_fromI)
      next
        case True
        have "2 * remaining lx2 + 2 \<le> n" using k(3) c(3) r by simp
        from v [OF this] obtain w lx3 where
          pv: "Parser_parseValue n Number lx2 = Some (w, lx3)" and a3: "advances lx2 lx3"
          by (auto simp: returns_from_def)
        have a13: "advances lx lx3" using a2 a3 by (rule advances_trans)
        show ?thesis
        proof (cases w)
          case None
          with k t c True pv a13 show ?thesis by (simp add: returns_fromI)
        next
          case (Some val)
          show ?thesis
          proof (cases rule: nextToken_cases [of Number lx3])
            case none
            with k t c True pv Some a13 show ?thesis
              by (simp add: returns_fromI advances_trans [of lx lx3 "skipWhitespace lx3"])
          next
            case (some sep lx4)
            have a4: "advances lx lx4" using a13 some(2) by (rule advances_trans)
            have "2 * remaining lx4 + 3 \<le> n"
              using some(3) advances_remaining [OF a3] c(3) k(3) r by simp
            from l [OF this] have "returns_from lx (Parser_parseObject_loop n Number ob lx4)" for ob
              using a4 by (rule returns_from_trans)
            with k t c True pv Some some a4 show ?thesis
              by (simp add: returns_fromI)
          qed
        qed
      qed
    qed
  qed
qed

lemma Parser_parseArray_loop_step:
  assumes v: "\<And>lx. 2 * remaining lx + 2 \<le> n \<Longrightarrow>
      returns_from lx (Parser_parseValue n Number lx :: ('n JSONValue option \<times> Lexer) option)"
    and l: "\<And>arr lx. 2 * remaining lx + 3 \<le> n \<Longrightarrow>
      returns_from lx (Parser_parseArray_loop n Number arr lx :: ('n JSONValue option \<times> Lexer) option)"
    and r: "2 * remaining lx + 3 \<le> Suc n"
  shows "returns_from lx (Parser_parseArray_loop (Suc n) Number arr lx)"
proof -
  have "2 * remaining lx + 2 \<le> n" using r by simp
  from v [OF this] obtain w lx1 where
    pv: "Parser_parseValue n Number lx = Some (w, lx1)" and a1: "advances lx lx1"
    by (auto simp: returns_from_def)
  show ?thesis
  proof (cases w)
    case None
    with pv a1 show ?thesis by (simp add: returns_fromI)
  next
    case (Some val)
    show ?thesis
    proof (cases rule: nextToken_cases [of Number lx1])
      case none
      with pv Some a1 show ?thesis
        by (simp add: returns_fromI advances_trans [of lx lx1 "skipWhitespace lx1"])
    next
      case (some sep lx2)
      have a2: "advances lx lx2" using a1 some(2) by (rule advances_trans)
      have "2 * remaining lx2 + 3 \<le> n"
        using some(3) advances_remaining [OF a1] r by simp
      from l [OF this] have "returns_from lx (Parser_parseArray_loop n Number ar lx2)" for ar
        using a2 by (rule returns_from_trans)
      with pv Some some a2 show ?thesis
        by (simp add: returns_fromI)
    qed
  qed
qed

lemma Parser_parseObject_step:
  assumes l: "\<And>obj lx. 2 * remaining lx + 3 \<le> n \<Longrightarrow>
      returns_from lx (Parser_parseObject_loop n Number obj lx :: ('n JSONValue option \<times> Lexer) option)"
    and r: "2 * remaining lx + 3 \<le> n"
  shows "returns_from lx (Parser_parseObject n Number lx)"
proof (cases rule: Parser_peek_cases [of Number lx])
  case none
  have "2 * remaining (skipWhitespace lx) + 3 \<le> n"
    using r advances_remaining [OF advances_skipWhitespace, of lx] by simp
  from l [OF this] have "returns_from lx (Parser_parseObject_loop n Number [] (skipWhitespace lx))"
    by (rule returns_from_trans) simp
  with none show ?thesis by simp
next
  case (some t lx1)
  have "2 * remaining lx1 + 3 \<le> n" using r advances_remaining [OF some(2)] by simp
  from l [OF this] have 1: "returns_from lx (Parser_parseObject_loop n Number [] lx1)"
    using some(2) by (rule returns_from_trans)
  have 2: "advances lx (snd (nextToken Number lx1))"
    by (cases rule: nextToken_cases [of Number lx1])
       (auto intro: advances_trans [OF some(2)])
  from some 1 2 show ?thesis by (simp add: returns_fromI)
qed

lemma Parser_parseArray_step:
  assumes l: "\<And>arr lx. 2 * remaining lx + 3 \<le> n \<Longrightarrow>
      returns_from lx (Parser_parseArray_loop n Number arr lx :: ('n JSONValue option \<times> Lexer) option)"
    and r: "2 * remaining lx + 3 \<le> n"
  shows "returns_from lx (Parser_parseArray n Number lx)"
proof (cases rule: Parser_peek_cases [of Number lx])
  case none
  have "2 * remaining (skipWhitespace lx) + 3 \<le> n"
    using r advances_remaining [OF advances_skipWhitespace, of lx] by simp
  from l [OF this] have "returns_from lx (Parser_parseArray_loop n Number [] (skipWhitespace lx))"
    by (rule returns_from_trans) simp
  with none show ?thesis by simp
next
  case (some t lx1)
  have "2 * remaining lx1 + 3 \<le> n" using r advances_remaining [OF some(2)] by simp
  from l [OF this] have 1: "returns_from lx (Parser_parseArray_loop n Number [] lx1)"
    using some(2) by (rule returns_from_trans)
  have 2: "advances lx (snd (nextToken Number lx1))"
    by (cases rule: nextToken_cases [of Number lx1])
       (auto intro: advances_trans [OF some(2)])
  from some 1 2 show ?thesis by (simp add: returns_fromI)
qed

lemma Parser_parseValue_step:
  assumes ob: "\<And>lx. 2 * remaining lx + 3 \<le> n \<Longrightarrow>
      returns_from lx (Parser_parseObject n Number lx :: ('n JSONValue option \<times> Lexer) option)"
    and ar: "\<And>lx. 2 * remaining lx + 3 \<le> n \<Longrightarrow>
      returns_from lx (Parser_parseArray n Number lx :: ('n JSONValue option \<times> Lexer) option)"
    and r: "2 * remaining lx + 2 \<le> Suc n"
  shows "returns_from lx (Parser_parseValue (Suc n) Number lx)"
proof (cases rule: nextToken_cases [of Number lx])
  case none
  then show ?thesis by (simp add: returns_fromI)
next
  case (some t lx1)
  have "2 * remaining lx1 + 3 \<le> n" using some(3) r by simp
  from ob [OF this] ar [OF this]
  have "returns_from lx (Parser_parseObject n Number lx1)"
       "returns_from lx (Parser_parseArray n Number lx1)"
    using some(2) by (auto intro: returns_from_trans)
  with some show ?thesis by (simp add: returns_fromI)
qed

lemma Parser_family_returns:
  "(\<forall>lx. 2 * remaining lx + 2 \<le> n \<longrightarrow>
      returns_from lx (Parser_parseValue n Number lx :: ('n JSONValue option \<times> Lexer) option)) \<and>
   (\<forall>lx. 2 * remaining lx + 3 \<le> n \<longrightarrow>
      returns_from lx (Parser_parseObject n Number lx :: ('n JSONValue option \<times> Lexer) option)) \<and>
   (\<forall>obj lx. 2 * remaining lx + 3 \<le> n \<longrightarrow>
      returns_from lx (Parser_parseObject_loop n Number obj lx :: ('n JSONValue option \<times> Lexer) option)) \<and>
   (\<forall>lx. 2 * remaining lx + 3 \<le> n \<longrightarrow>
      returns_from lx (Parser_parseArray n Number lx :: ('n JSONValue option \<times> Lexer) option)) \<and>
   (\<forall>arr lx. 2 * remaining lx + 3 \<le> n \<longrightarrow>
      returns_from lx (Parser_parseArray_loop n Number arr lx :: ('n JSONValue option \<times> Lexer) option))"
proof (induction n)
  case 0
  then show ?case by simp
next
  case (Suc n)
  have ol: "returns_from lx (Parser_parseObject_loop (Suc n) Number obj lx :: ('n JSONValue option \<times> Lexer) option)"
    if "2 * remaining lx + 3 \<le> Suc n" for obj lx
    using Suc that by (intro Parser_parseObject_loop_step) blast+
  have al: "returns_from lx (Parser_parseArray_loop (Suc n) Number arr lx :: ('n JSONValue option \<times> Lexer) option)"
    if "2 * remaining lx + 3 \<le> Suc n" for arr lx
    using Suc that by (intro Parser_parseArray_loop_step) blast+
  have o: "returns_from lx (Parser_parseObject (Suc n) Number lx :: ('n JSONValue option \<times> Lexer) option)"
    if "2 * remaining lx + 3 \<le> Suc n" for lx
    using that ol by (intro Parser_parseObject_step) blast+
  have a: "returns_from lx (Parser_parseArray (Suc n) Number lx :: ('n JSONValue option \<times> Lexer) option)"
    if "2 * remaining lx + 3 \<le> Suc n" for lx
    using that al by (intro Parser_parseArray_step) blast+
  have v: "returns_from lx (Parser_parseValue (Suc n) Number lx :: ('n JSONValue option \<times> Lexer) option)"
    if "2 * remaining lx + 2 \<le> Suc n" for lx
    using Suc that by (intro Parser_parseValue_step) blast+
  from ol al o a v show ?case by blast
qed

lemma Parser_parse_returns: "\<exists>r lx'. Parser_parse Number input lx = Some (r, lx')"
proof -
  let ?lx = "addChunk input lx"
  have "2 * remaining ?lx + 2 \<le> fuel ?lx" by (simp add: fuel_def remaining_def)
  with Parser_family_returns [of "fuel ?lx" Number]
  obtain v lx' where "Parser_parseValue (fuel ?lx) Number ?lx = Some (v, lx')"
    by (auto simp: returns_from_def)
  then show ?thesis by (cases v) (simp_all add: Parser_parse_def)
qed

section \<open>Steps of the state machine\<close>

lemma handleScanningForResults_returns:
  assumes "nextToken Number (lexer p) = (Some token, lx1)" "advances (lexer p) lx1"
  shows "\<exists>b p'. handleScanningForResults Number token p = Some (b, p') \<and>
           advances (lexer p) (lexer p') \<and> entries p' = entries p \<and> errors p' = errors p \<and>
           (state p' = state p \<or> state p' = EXPECT_COLON_AFTER_RESULTS \<or> state p' = DONE)"
proof (cases "token = StringToken (str ''results'')")
  case True
  with assms show ?thesis by (auto simp: handleScanningForResults_def)
next
  case False
  show ?thesis
  proof (cases rule: expectToken_cases [of Number T_name_separator lx1])
    case (no lx2)
    with assms False show ?thesis
      by (auto simp: handleScanningForResults_def advances_trans [of "lexer p" lx1 lx2])
  next
    case (yes lx2)
    have a2: "advances (lexer p) lx2" using assms(2) yes(2) by (rule advances_trans)
    obtain b lx3 where sv: "skipValue Number lx2 = Some (b, lx3)" and a3: "advances lx2 lx3"
      using skipValue_returns [of Number lx2] by blast
    have a13: "advances (lexer p) lx3" using a2 a3 by (rule advances_trans)
    show ?thesis
    proof (cases b)
      case False
      with assms \<open>token \<noteq> StringToken (str ''results'')\<close> yes sv a13 show ?thesis
        by (auto simp: handleScanningForResults_def)
    next
      case True
      show ?thesis
      proof (cases rule: nextToken_cases [of Number lx3])
        case none
        with assms \<open>token \<noteq> StringToken (str ''results'')\<close> yes sv True a13 show ?thesis
          by (auto simp: handleScanningForResults_def
                advances_trans [of "lexer p" lx3 "skipWhitespace lx3"])
      next
        case (some sep lx4)
        have "advances (lexer p) lx4" using a13 some(2) by (rule advances_trans)
        with assms \<open>token \<noteq> StringToken (str ''results'')\<close> yes sv True some show ?thesis
          by (auto simp: handleScanningForResults_def)
      qed
    qed
  qed
qed

lemma processNextStep_returns: "step_ok p (processNextStep Number JSON_parse onNewEntry p)"
proof (cases rule: peek_cases [of Number "lexer p"])
  case none
  then show ?thesis by (auto simp: processNextStep_def step_ok_def)
next
  case (some t lx')
  have p: "p\<lparr>lexer := lexer p\<rparr> = p" by simp
  show ?thesis
  proof (cases "state p")
    case SCANNING_FOR_RESULTS
    from handleScanningForResults_returns [OF some(2,3)]
    show ?thesis using some SCANNING_FOR_RESULTS by (auto simp: processNextStep_def step_ok_def)
  next
    case (PARSING_ARRAY_ENTRY c st)
    with some show ?thesis
      by (auto simp: processNextStep_def step_ok_def handleParsingArrayEntry_def Let_def
               split: option.splits)
  qed (use some in \<open>auto simp: processNextStep_def step_ok_def handleExpectObjectStart_def
         handleExpectColon_def handleExpectArrayStart_def handleParsingResultsArray_def\<close>)
qed


lemma step_decreases:
  assumes "advances lx lx'" "position lx < length (buffer lx)" "position lx' \<noteq> position lx"
  shows "remaining lx' < remaining lx"
  using assms by (auto simp: advances_def remaining_def)

lemma parseChunk_loop_returns:
  "\<exists>p'. parseChunk_loop Number JSON_parse onNewEntry p = Some p' \<and> advances (lexer p) (lexer p')"
proof (induction "remaining (lexer p)" arbitrary: p rule: less_induct)
  case less
  obtain b p1 where st: "processNextStep Number JSON_parse onNewEntry p = Some (b, p1)"
    and adv: "advances (lexer p) (lexer p1)"
    and lt: "b \<longrightarrow> position (lexer p) < length (buffer (lexer p))"
    using processNextStep_returns [of p Number JSON_parse onNewEntry] by (auto simp: step_ok_def)
  show ?case
  proof (cases "b \<and> position (lexer p1) \<noteq> position (lexer p)")
    case True
    then have "remaining (lexer p1) < remaining (lexer p)"
      using adv lt by (intro step_decreases) simp_all
    from less.hyps [OF this] obtain p' where
      "parseChunk_loop Number JSON_parse onNewEntry p1 = Some p'" "advances (lexer p1) (lexer p')"
      by blast
    with st True adv show ?thesis
      by (subst parseChunk_loop.simps) (auto intro: advances_trans)
  next
    case False
    with st adv show ?thesis
      by (subst parseChunk_loop.simps) auto
  qed
qed

lemma parseChunk_loop_invariant:
  assumes step: "\<And>p b p'. I p \<Longrightarrow> processNextStep Number JSON_parse onNewEntry p = Some (b, p') \<Longrightarrow> I p'"
  shows "I p \<Longrightarrow> parseChunk_loop Number JSON_parse onNewEntry p = Some p' \<Longrightarrow> I p'"
proof (induction "remaining (lexer p)" arbitrary: p rule: less_induct)
  case less
  obtain b p1 where st: "processNextStep Number JSON_parse onNewEntry p = Some (b, p1)"
    and adv: "advances (lexer p) (lexer p1)"
    and lt: "b \<longrightarrow> position (lexer p) < length (buffer (lexer p))"
    using processNextStep_returns [of p Number JSON_parse onNewEntry] by (auto simp: step_ok_def)
  have I1: "I p1" using less.prems(1) st by (rule step)
  show ?case
  proof (cases "b \<and> position (lexer p1) \<noteq> position (lexer p)")
    case True
    then have d: "remaining (lexer p1) < remaining (lexer p)"
      using adv lt by (intro step_decreases) simp_all
    have "parseChunk_loop Number JSON_parse onNewEntry p1 = Some p'"
      using less.prems(2) st True by (subst (asm) parseChunk_loop.simps) auto
    with less.hyps [OF d I1] show ?thesis .
  next
    case False
    then have "p' = p1"
      using less.prems(2) st by (subst (asm) parseChunk_loop.simps) (auto split: if_splits)
    with I1 show ?thesis by simp
  qed
qed

lemma parseChunk_returns: "\<exists>p'. parseChunk Number JSON_parse onNewEntry chunk p = Some p'"
  using parseChunk_loop_returns [of Number JSON_parse onNewEntry "p\<lparr>lexer := addChunk chunk (lexer p)\<rparr>"]
  by (auto simp: parseChunk_def)

lemma parseStream_returns: "\<exists>p'. parseStream Number JSON_parse onNewEntry chunks p = Some p'"
proof (induction chunks arbitrary: p)
  case Nil
  then show ?case by simp
next
  case (Cons chunk chunks)
  obtain p1 where p1: "parseChunk Number JSON_parse onNewEntry chunk p = Some p1"
    using parseChunk_returns [of Number JSON_parse onNewEntry chunk p] by (elim exE)
  show ?case
  proof (cases "chunk = []")
    case True
    with Cons.IH [of p] show ?thesis by simp
  next
    case False
    with Cons.IH [of p1] p1 show ?thesis by simp
  qed
qed

lemma parseChunk_reachable:
  assumes "reachable Number JSON_parse onNewEntry p" "parseChunk Number JSON_parse onNewEntry chunk p = Some p'"
  shows "reachable Number JSON_parse onNewEntry p'"
proof -
  have "reachable Number JSON_parse onNewEntry (p\<lparr>lexer := addChunk chunk (lexer p)\<rparr>)"
    using assms(1) by (rule reachable.chunk)
  moreover have "parseChunk_loop Number JSON_parse onNewEntry (p\<lparr>lexer := addChunk chunk (lexer p)\<rparr>) = Some p'"
    using assms(2) by (simp add: parseChunk_def)
  ultimately show ?thesis
  proof (rule parseChunk_loop_invariant [where I = "reachable Number JSON_parse onNewEntry", rotated])
    show "reachable Number JSON_parse onNewEntry q'"
      if "reachable Number JSON_parse onNewEntry q" "processNextStep Number JSON_parse onNewEntry q = Some (b, q')"
      for q b q'
      using that by (rule reachable.step)
  qed
qed

lemma parseStream_reachable:
  "reachable Number JSON_parse onNewEntry p \<Longrightarrow> parseStream Number JSON_parse onNewEntry chunks p = Some p' \<Longrightarrow>
     reachable Number JSON_parse onNewEntry p'"
proof (induction chunks arbitrary: p)
  case Nil
  then show ?case by simp
next
  case (Cons chunk chunks)
  show ?case
  proof (cases "chunk = []")
    case True
    with Cons show ?thesis by simp
  next
    case False
    obtain p1 where p1: "parseChunk Number JSON_parse onNewEntry chunk p = Some p1"
      using parseChunk_returns [of Number JSON_parse onNewEntry chunk p] by (elim exE)
    have "reachable Number JSON_parse onNewEntry p1"
      using Cons.prems(1) p1 by (rule parseChunk_reachable)
    with Cons.IH [of p1] Cons.prems(2) p1 False show ?thesis by simp
  qed
qed


lemmas handler_defs =
  handleExpectObjectStart_def handleExpectColon_def handleExpectArrayStart_def
  handleParsingResultsArray_def handleParsingArrayEntry_def

lemma depth_invariant_step:
  assumes st: "processNextStep Number JSON_parse onNewEntry p = Some (b, p')" and inv: "depth_invariant p"
  shows "depth_invariant p'"
proof (cases rule: peek_cases [of Number "lexer p"])
  case none
  with st inv show ?thesis by (auto simp: processNextStep_def depth_invariant_def)
next
  case (some t lx')
  show ?thesis
  proof (cases "state p")
    case SCANNING_FOR_RESULTS
    from handleScanningForResults_returns [OF some(2,3)] st some SCANNING_FOR_RESULTS
    show ?thesis by (auto simp: processNextStep_def depth_invariant_def)
  next
    case (PARSING_ARRAY_ENTRY c start)
    with st some inv show ?thesis
      by (auto simp: processNextStep_def depth_invariant_def handleParsingArrayEntry_def Let_def
               split: option.splits if_splits)
  qed (use st some inv in \<open>auto simp: processNextStep_def depth_invariant_def handler_defs
         split: if_splits\<close>)
qed

lemma depth_invariant_reachable:
  "reachable Number JSON_parse onNewEntry p \<Longrightarrow> depth_invariant p"
proof (induction rule: reachable.induct)
  case start
  show ?case by (simp add: depth_invariant_def new_StreamingJSONParser_def)
next
  case (chunk p c)
  then show ?case by (simp add: depth_invariant_def)
next
  case (step p b p')
  from step.hyps(2) step.IH show ?case by (rule depth_invariant_step)
qed

lemma emission_step:
  assumes st: "processNextStep Number JSON_parse onNewEntry p = Some (b, p')" and e: "entries p' \<noteq> entries p"
  shows "\<exists>start v. state p = PARSING_ARRAY_ENTRY 1 start \<and> entries p' = entries p @ [v] \<and>
           nextToken Number (lexer p) = (Some EndObject, lexer p') \<and>
           (errors p' = errors p \<longrightarrow> b \<and> state p' = PARSING_RESULTS_ARRAY)"
proof (cases rule: peek_cases [of Number "lexer p"])
  case none
  with st e show ?thesis by (auto simp: processNextStep_def)
next
  case (some t lx')
  show ?thesis
  proof (cases "state p")
    case SCANNING_FOR_RESULTS
    from handleScanningForResults_returns [OF some(2,3)] st some SCANNING_FOR_RESULTS e
    show ?thesis by (auto simp: processNextStep_def)
  next
    case (PARSING_ARRAY_ENTRY c start)
    with st some e show ?thesis
      by (auto simp: processNextStep_def handleParsingArrayEntry_def Let_def
               split: option.splits if_splits)
  qed (use st some e in \<open>auto simp: processNextStep_def handler_defs split: if_splits\<close>)
qed

lemma atomic_step:
  assumes st: "processNextStep Number JSON_parse onNewEntry p = Some (b, p')"
    and ns: "state p \<noteq> SCANNING_FOR_RESULTS"
  shows "(b \<longrightarrow> (\<exists>token. nextToken Number (lexer p) = (Some token, lexer p'))) \<and>
         (\<not> b \<and> errors p' = errors p \<longrightarrow> p' = p \<or> p' = p\<lparr>lexer := skipWhitespace (lexer p)\<rparr>)"
proof (cases rule: peek_cases [of Number "lexer p"])
  case none
  with st show ?thesis by (auto simp: processNextStep_def)
next
  case (some t lx')
  show ?thesis
  proof (cases "state p")
    case SCANNING_FOR_RESULTS
    with ns show ?thesis by simp
  next
    case (PARSING_ARRAY_ENTRY c start)
    with st some show ?thesis
      by (auto simp: processNextStep_def handleParsingArrayEntry_def Let_def
               split: option.splits if_splits)
  qed (use st some in \<open>auto simp: processNextStep_def handler_defs split: if_splits\<close>)
qed


lemma closing_step:
  assumes "state p = PARSING_ARRAY_ENTRY 1 start"
    and "nextToken Number (lexer p) = (Some EndObject, lx1)"
    and "JSON_parse (slice (buffer lx1) start (position lx1)) = Some v"
    and "onNewEntry (entries p) v"
  shows "processNextStep Number JSON_parse onNewEntry p
           = Some (True, p\<lparr>lexer := lx1, state := PARSING_RESULTS_ARRAY, entries := entries p @ [v]\<rparr>)"
proof (cases rule: peek_cases [of Number "lexer p"])
  case none
  with assms show ?thesis by simp
next
  case (some t lx')
  with assms show ?thesis
    by (simp add: processNextStep_def handleParsingArrayEntry_def)
qed

section \<open>The drain loop ends (C8)\<close>

text \<open>
  C8: every \<open>parseChunk\<close> call returns, from any parser state and for any chunk, and
  so does \<open>parseStream\<close> on any finite list of chunks (the loop is a partial function
  whose value \<open>None\<close> would be a loop that never ends, or a recursion out of fuel).
  The reason is the one the claim gives: a step that reports progress and moves the
  cursor moves it forward and leaves strictly less input after it; a step that reports
  progress without moving the cursor ends the loop by the test in \<open>parseChunk\<close>.
\<close>

theorem C8_parseChunk_terminates:
  "(\<exists>p'. parseChunk Number JSON_parse onNewEntry chunk p = Some p') \<and>
   (\<exists>p'. parseStream Number JSON_parse onNewEntry chunks p = Some p') \<and>
   (\<forall>p1. processNextStep Number JSON_parse onNewEntry p = Some (True, p1) \<and>
          position (lexer p1) \<noteq> position (lexer p) \<longrightarrow>
          position (lexer p) < position (lexer p1) \<and>
          remaining (lexer p1) < remaining (lexer p))"
proof (intro conjI allI impI)
  show "\<exists>p'. parseChunk Number JSON_parse onNewEntry chunk p = Some p'" by (rule parseChunk_returns)
  show "\<exists>p'. parseStream Number JSON_parse onNewEntry chunks p = Some p'" by (rule parseStream_returns)
next
  fix p1
  assume a: "processNextStep Number JSON_parse onNewEntry p = Some (True, p1) \<and>
          position (lexer p1) \<noteq> position (lexer p)"
  with processNextStep_returns [of p Number JSON_parse onNewEntry]
  have adv: "advances (lexer p) (lexer p1)" and lt: "position (lexer p) < length (buffer (lexer p))"
    by (auto simp: step_ok_def)
  from adv a show "position (lexer p) < position (lexer p1)" by (auto simp: advances_def)
  from adv lt a show "remaining (lexer p1) < remaining (lexer p)"
    by (intro step_decreases) simp_all
qed

theorem C8_parseChunk_terminates_witness:
  "processNextStep Number_builtin JSON_parse_builtin callback_returns
     \<lparr>lexer = \<lparr>buffer = str ''{'', position = 0\<rparr>, state = EXPECT_OBJECT_START,
      entries = [], errors = []\<rparr>
     = Some (True, \<lparr>lexer = \<lparr>buffer = str ''{'', position = 1\<rparr>, state = SCANNING_FOR_RESULTS,
                    entries = [], errors = []\<rparr>) \<and>
   remaining \<lparr>buffer = str ''{'', position = 1\<rparr> < remaining \<lparr>buffer = str ''{'', position = 0\<rparr>"
proof -
  let ?p = "\<lparr>lexer = \<lparr>buffer = str ''{'', position = 0\<rparr>, state = EXPECT_OBJECT_START,
      entries = [] :: jsnumber JSONValue list, errors = []\<rparr>"
  let ?p1 = "\<lparr>lexer = \<lparr>buffer = str ''{'', position = 1\<rparr>, state = SCANNING_FOR_RESULTS,
      entries = [] :: jsnumber JSONValue list, errors = []\<rparr>"
  have h: "processNextStep Number_builtin JSON_parse_builtin callback_returns ?p = Some (True, ?p1)"
    by code_simp
  from C8_parseChunk_terminates [of Number_builtin JSON_parse_builtin callback_returns "[]" ?p "[]"]
  have "processNextStep Number_builtin JSON_parse_builtin callback_returns ?p = Some (True, ?p1) \<and>
          position (lexer ?p1) \<noteq> position (lexer ?p) \<longrightarrow>
          remaining (lexer ?p1) < remaining (lexer ?p)"
    by blast
  with h show ?thesis by simp
qed

section \<open>The brace depth while collecting (C5)\<close>

text \<open>
  C5, as the claim states it, fails: when \<open>JSON.parse\<close> throws on the collected slice,
  \<open>handleParsingArrayEntry\<close> has already decremented \<open>bracketCount\<close> to 0, logs the
  error and returns \<open>false\<close> without leaving the collecting state. On the input
  \<open>{"results":[{]}\<close> the parser ends in the collecting state with depth 0. The same
  happens when the slice decodes and the consumer's callback throws (third conjunct: a
  step on \<open>{}\<close> at depth 1 with a callback that throws).
\<close>

theorem C5_counterexample:
  \<open>map_option state
     (parseStream Number_builtin JSON_parse_builtin callback_returns [str ''{"results":[{]}'']
        new_StreamingJSONParser)
     = Some (PARSING_ARRAY_ENTRY 0 12) \<and>
   map_option errors
     (parseStream Number_builtin JSON_parse_builtin callback_returns [str ''{"results":[{]}'']
        new_StreamingJSONParser)
     = Some [str ''{]}''] \<and>
   processNextStep Number_builtin JSON_parse_builtin callback_throws
     \<lparr>lexer = \<lparr>buffer = str ''{}'', position = 1\<rparr>, state = PARSING_ARRAY_ENTRY 1 0,
      entries = [], errors = []\<rparr>
     = Some (False, \<lparr>lexer = \<lparr>buffer = str ''{}'', position = 2\<rparr>, state = PARSING_ARRAY_ENTRY 0 0,
                     entries = [JObject []], errors = [str ''{}'']\<rparr>)\<close>
  by code_simp

text \<open>
  C5, amended: as long as no error was logged (no decode of a collected element has
  failed and no call of the consumer's callback has thrown), the depth is at least 1 in
  every reachable collecting state, that is before each step, and in particular after
  every chunk of a stream. An element is handed to the consumer only by a step that reads
  a closing brace at depth 1, which brings the depth to 0, and unless that step logs an
  error it reports progress and leaves the collecting state; conversely such a step, when
  the slice decodes and the callback returns, emits the element and moves to the state
  between elements. What the state is after a logged error is not part of the amended
  claim.
\<close>

theorem C5_depth_invariant:
  "(reachable Number JSON_parse onNewEntry p \<and> errors p = [] \<and>
      state p = PARSING_ARRAY_ENTRY c start \<longrightarrow> 1 \<le> c) \<and>
   (parseStream Number JSON_parse onNewEntry chunks new_StreamingJSONParser = Some p \<and>
      errors p = [] \<and> state p = PARSING_ARRAY_ENTRY c start \<longrightarrow> 1 \<le> c) \<and>
   (processNextStep Number JSON_parse onNewEntry p = Some (b, p') \<and> entries p' \<noteq> entries p
      \<longrightarrow> (\<exists>start v. state p = PARSING_ARRAY_ENTRY 1 start \<and> entries p' = entries p @ [v] \<and>
             nextToken Number (lexer p) = (Some EndObject, lexer p') \<and>
             (errors p' = errors p \<longrightarrow> b \<and> state p' = PARSING_RESULTS_ARRAY))) \<and>
   (state p = PARSING_ARRAY_ENTRY 1 start \<and> nextToken Number (lexer p) = (Some EndObject, lx1) \<and>
      JSON_parse (slice (buffer lx1) start (position lx1)) = Some v \<and> onNewEntry (entries p) v
      \<longrightarrow> processNextStep Number JSON_parse onNewEntry p
            = Some (True, p\<lparr>lexer := lx1, state := PARSING_RESULTS_ARRAY,
                             entries := entries p @ [v]\<rparr>))"
proof (intro conjI impI)
  assume "reachable Number JSON_parse onNewEntry p \<and> errors p = [] \<and>
      state p = PARSING_ARRAY_ENTRY c start"
  then show "1 \<le> c"
    using depth_invariant_reachable [of Number JSON_parse onNewEntry p]
    by (simp add: depth_invariant_def)
next
  assume a: "parseStream Number JSON_parse onNewEntry chunks new_StreamingJSONParser = Some p \<and>
      errors p = [] \<and> state p = PARSING_ARRAY_ENTRY c start"
  have "reachable Number JSON_parse onNewEntry (new_StreamingJSONParser :: 'b StreamingJSONParser)"
    by (rule reachable.start)
  with a have "reachable Number JSON_parse onNewEntry p" by (auto intro: parseStream_reachable)
  with a show "1 \<le> c"
    using depth_invariant_reachable [of Number JSON_parse onNewEntry p]
    by (simp add: depth_invariant_def)
next
  assume "processNextStep Number JSON_parse onNewEntry p = Some (b, p') \<and> entries p' \<noteq> entries p"
  then show "\<exists>start v. state p = PARSING_ARRAY_ENTRY 1 start \<and> entries p' = entries p @ [v] \<and>
             nextToken Number (lexer p) = (Some EndObject, lexer p') \<and>
             (errors p' = errors p \<longrightarrow> b \<and> state p' = PARSING_RESULTS_ARRAY)"
    using emission_step [of Number JSON_parse onNewEntry p b p'] by blast
next
  assume "state p = PARSING_ARRAY_ENTRY 1 start \<and> nextToken Number (lexer p) = (Some EndObject, lx1) \<and>
      JSON_parse (slice (buffer lx1) start (position lx1)) = Some v \<and> onNewEntry (entries p) v"
  then show "processNextStep Number JSON_parse onNewEntry p
            = Some (True, p\<lparr>lexer := lx1, state := PARSING_RESULTS_ARRAY,
                             entries := entries p @ [v]\<rparr>)"
    using closing_step [of p start Number lx1 JSON_parse v onNewEntry] by blast
qed

theorem C5_depth_invariant_witness:
  \<open>parseStream Number_builtin JSON_parse_builtin callback_returns [str ''{"results":[{"a":{'']
      new_StreamingJSONParser
     = Some \<lparr>lexer = \<lparr>buffer = str ''{"results":[{"a":{'', position = 18\<rparr>,
              state = PARSING_ARRAY_ENTRY 2 12, entries = [], errors = []\<rparr> \<and>
   reachable Number_builtin JSON_parse_builtin callback_returns
     \<lparr>lexer = \<lparr>buffer = str ''{"results":[{"a":{'', position = 18\<rparr>,
      state = PARSING_ARRAY_ENTRY 2 12, entries = [], errors = []\<rparr> \<and>
   (1 :: int) \<le> 2 \<and>
   processNextStep Number_builtin JSON_parse_builtin callback_returns
     \<lparr>lexer = \<lparr>buffer = str ''{}'', position = 1\<rparr>, state = PARSING_ARRAY_ENTRY 1 0,
      entries = [], errors = []\<rparr>
     = Some (True, \<lparr>lexer = \<lparr>buffer = str ''{}'', position = 2\<rparr>, state = PARSING_RESULTS_ARRAY,
                    entries = [JObject []], errors = []\<rparr>) \<and>
   nextToken Number_builtin \<lparr>buffer = str ''{}'', position = 1\<rparr>
     = (Some EndObject, \<lparr>buffer = str ''{}'', position = 2\<rparr>)\<close>
proof -
  let ?pA = \<open>\<lparr>lexer = \<lparr>buffer = str ''{"results":[{"a":{'', position = 18\<rparr>,
      state = PARSING_ARRAY_ENTRY 2 12, entries = [] :: jsnumber JSONValue list, errors = []\<rparr>\<close>
  let ?pB = "\<lparr>lexer = \<lparr>buffer = str ''{}'', position = 1\<rparr>, state = PARSING_ARRAY_ENTRY 1 0,
      entries = [] :: jsnumber JSONValue list, errors = []\<rparr>"
  let ?lx1 = "\<lparr>buffer = str ''{}'', position = 2\<rparr>"
  let ?pB' = "\<lparr>lexer = ?lx1, state = PARSING_RESULTS_ARRAY,
      entries = [JObject []] :: jsnumber JSONValue list, errors = []\<rparr>"
  have h1: \<open>parseStream Number_builtin JSON_parse_builtin callback_returns
      [str ''{"results":[{"a":{''] new_StreamingJSONParser = Some ?pA\<close>
    by code_simp
  have r: "reachable Number_builtin JSON_parse_builtin callback_returns ?pA"
    using reachable.start h1 by (rule parseStream_reachable)
  have h2: "nextToken Number_builtin (lexer ?pB) = (Some EndObject, ?lx1)"
    by code_simp
  have h3: "JSON_parse_builtin (slice (buffer ?lx1) 0 (position ?lx1)) = Some (JObject [])"
    by code_simp
  have h4: "callback_returns (entries ?pB) (JObject [] :: jsnumber JSONValue)"
    by (simp add: callback_returns_def)
  note T = C5_depth_invariant [where Number = Number_builtin and JSON_parse = JSON_parse_builtin
    and onNewEntry = callback_returns]
  have e: "errors ?pA = []" "state ?pA = PARSING_ARRAY_ENTRY 2 12" by simp_all
  have c1: "(1 :: int) \<le> 2"
    using conjunct1 [OF T [where p = ?pA and c = 2 and start = 12]] r e by blast
  have sB: "state ?pB = PARSING_ARRAY_ENTRY 1 0" by simp
  have c4: "processNextStep Number_builtin JSON_parse_builtin callback_returns ?pB
      = Some (True, ?pB\<lparr>lexer := ?lx1, state := PARSING_RESULTS_ARRAY,
                          entries := entries ?pB @ [JObject []]\<rparr>)"
    using conjunct2 [OF conjunct2 [OF conjunct2 [OF
            T [where p = ?pB and start = 0 and ?lx1.0 = ?lx1 and v = "JObject []"]]]] sB h2 h3 h4
    by blast
  have eq: "?pB\<lparr>lexer := ?lx1, state := PARSING_RESULTS_ARRAY,
                entries := entries ?pB @ [JObject []]\<rparr> = ?pB'"
    by simp
  have c4': "processNextStep Number_builtin JSON_parse_builtin callback_returns ?pB
      = Some (True, ?pB')"
    using c4 unfolding eq .
  have ne: "entries ?pB' \<noteq> entries ?pB" by simp
  have c3: "nextToken Number_builtin (lexer ?pB) = (Some EndObject, lexer ?pB')"
    using conjunct1 [OF conjunct2 [OF conjunct2 [OF
            T [where p = ?pB and b = True and p' = ?pB']]]] c4' ne
    by blast
  have c3': "nextToken Number_builtin \<lparr>buffer = str ''{}'', position = 1\<rparr>
      = (Some EndObject, \<lparr>buffer = str ''{}'', position = 2\<rparr>)"
    using c3 by (simp only: StreamingJSONParser.simps)
  show ?thesis
    by (intro conjI) (rule h1, rule r, rule c1, rule c4', rule c3')
qed

section \<open>Steps that decline (C3)\<close>

text \<open>
  C3, as the claim states it, fails in two ways. A step that finds no token declines but
  leaves the cursor after the white space the lexer skipped (first conjunct: the buffer
  is one space). And \<open>handleScanningForResults\<close> consumes the key before it knows that
  the rest of the pair is buffered (second conjunct: on \<open>{"a"\<close> in the scanning state
  the step declines with the cursor moved from 1 to 4, past the key).
\<close>

theorem C3_counterexample:
  \<open>processNextStep Number_builtin JSON_parse_builtin callback_returns
     \<lparr>lexer = \<lparr>buffer = str '' '', position = 0\<rparr>, state = EXPECT_OBJECT_START,
      entries = [], errors = []\<rparr>
     = Some (False, \<lparr>lexer = \<lparr>buffer = str '' '', position = 1\<rparr>, state = EXPECT_OBJECT_START,
                     entries = [], errors = []\<rparr>) \<and>
   processNextStep Number_builtin JSON_parse_builtin callback_returns
     \<lparr>lexer = \<lparr>buffer = str ''{"a"'', position = 1\<rparr>, state = SCANNING_FOR_RESULTS,
      entries = [], errors = []\<rparr>
     = Some (False, \<lparr>lexer = \<lparr>buffer = str ''{"a"'', position = 4\<rparr>, state = SCANNING_FOR_RESULTS,
                     entries = [], errors = []\<rparr>)\<close>
  by code_simp

text \<open>
  C3, amended: in every state other than scanning-keys, a step that reports progress has
  committed exactly the token it peeked (the lexer is the one \<open>nextToken\<close> leaves), and
  a step that declines without logging a decode error leaves the parser as it was, but
  for the cursor, which is moved over leading white space when no token could be read.
  The scanning-keys state and the step whose decode fails are left out.
\<close>

theorem C3_atomic_step:
  assumes "processNextStep Number JSON_parse onNewEntry p = Some (b, p')"
    and "state p \<noteq> SCANNING_FOR_RESULTS"
  shows "(b \<longrightarrow> (\<exists>token. nextToken Number (lexer p) = (Some token, lexer p'))) \<and>
         (\<not> b \<and> errors p' = errors p \<longrightarrow> p' = p \<or> p' = p\<lparr>lexer := skipWhitespace (lexer p)\<rparr>)"
  using assms by (rule atomic_step)

theorem C3_atomic_step_witness:
  \<open>processNextStep Number_builtin JSON_parse_builtin callback_returns
     \<lparr>lexer = \<lparr>buffer = str '' [ 1'', position = 0\<rparr>, state = EXPECT_ARRAY_START,
      entries = [], errors = []\<rparr>
     = Some (True, \<lparr>lexer = \<lparr>buffer = str '' [ 1'', position = 2\<rparr>, state = PARSING_RESULTS_ARRAY,
                    entries = [], errors = []\<rparr>) \<and>
   (\<exists>token. nextToken Number_builtin \<lparr>buffer = str '' [ 1'', position = 0\<rparr>
      = (Some token, \<lparr>buffer = str '' [ 1'', position = 2\<rparr>)) \<and>
   processNextStep Number_builtin JSON_parse_builtin callback_returns
     \<lparr>lexer = \<lparr>buffer = str '' [ 1'', position = 2\<rparr>, state = PARSING_RESULTS_ARRAY,
      entries = [], errors = []\<rparr>
     = Some (False, \<lparr>lexer = \<lparr>buffer = str '' [ 1'', position = 3\<rparr>, state = PARSING_RESULTS_ARRAY,
                     entries = [], errors = []\<rparr>) \<and>
   (\<lparr>lexer = \<lparr>buffer = str '' [ 1'', position = 3\<rparr>, state = PARSING_RESULTS_ARRAY,
      entries = [] :: jsnumber JSONValue list, errors = []\<rparr>
      = \<lparr>lexer = \<lparr>buffer = str '' [ 1'', position = 2\<rparr>, state = PARSING_RESULTS_ARRAY,
         entries = [], errors = []\<rparr> \<or>
    \<lparr>lexer = \<lparr>buffer = str '' [ 1'', position = 3\<rparr>, state = PARSING_RESULTS_ARRAY,
      entries = [] :: jsnumber JSONValue list, errors = []\<rparr>
      = \<lparr>lexer = \<lparr>buffer = str '' [ 1'', position = 2\<rparr>, state = PARSING_RESULTS_ARRAY,
         entries = [], errors = []\<rparr>
        \<lparr>lexer := skipWhitespace \<lparr>buffer = str '' [ 1'', position = 2\<rparr>\<rparr>)\<close>
proof -
  let ?p = "\<lparr>lexer = \<lparr>buffer = str '' [ 1'', position = 0\<rparr>, state = EXPECT_ARRAY_START,
      entries = [] :: jsnumber JSONValue list, errors = []\<rparr>"
  let ?p' = "\<lparr>lexer = \<lparr>buffer = str '' [ 1'', position = 2\<rparr>, state = PARSING_RESULTS_ARRAY,
      entries = [] :: jsnumber JSONValue list, errors = []\<rparr>"
  let ?p'' = "\<lparr>lexer = \<lparr>buffer = str '' [ 1'', position = 3\<rparr>, state = PARSING_RESULTS_ARRAY,
      entries = [] :: jsnumber JSONValue list, errors = []\<rparr>"
  have h1: "processNextStep Number_builtin JSON_parse_builtin callback_returns ?p = Some (True, ?p')"
    by code_simp
  have h2: "processNextStep Number_builtin JSON_parse_builtin callback_returns ?p' = Some (False, ?p'')"
    by code_simp
  have n1: "state ?p \<noteq> SCANNING_FOR_RESULTS" and n2: "state ?p' \<noteq> SCANNING_FOR_RESULTS"
    by simp_all
  have "\<exists>token. nextToken Number_builtin (lexer ?p) = (Some token, lexer ?p')"
    using conjunct1 [OF C3_atomic_step [OF h1 n1]] by blast
  then have c1: "\<exists>token. nextToken Number_builtin \<lparr>buffer = str '' [ 1'', position = 0\<rparr>
      = (Some token, \<lparr>buffer = str '' [ 1'', position = 2\<rparr>)"
    by (simp only: StreamingJSONParser.simps)
  have e: "errors ?p'' = errors ?p'" by simp
  have "?p'' = ?p' \<or> ?p'' = ?p'\<lparr>lexer := skipWhitespace (lexer ?p')\<rparr>"
    using conjunct2 [OF C3_atomic_step [OF h2 n2]] e by blast
  then have c2: "?p'' = ?p' \<or>
      ?p'' = ?p'\<lparr>lexer := skipWhitespace \<lparr>buffer = str '' [ 1'', position = 2\<rparr>\<rparr>"
    by (simp only: StreamingJSONParser.simps)
  show ?thesis
    by (intro conjI) (rule h1, rule c1, rule h2, rule c2)
qed

section \<open>The two-element document (C2)\<close>

text \<open>
  C2: the document \<open>{"results":[{"id":1,"name":"Alice"},{"id":2,"name":"Bob"}]}\<close>, fed
  as one fragment or in fragments of three characters, makes the parser call
  \<open>onNewEntry\<close> exactly twice, in array order, with the values of the two source
  objects (the callback returns from each call, as the one of the tests does). The first two conjuncts run the parser with the built-ins; the last two record
  the texts handed to \<open>JSON.parse\<close> (the decoder returns its argument), which are the
  two source objects to the character.
\<close>

theorem C2_alice_bob:
  \<open>map_option entries
     (parseStream Number_builtin JSON_parse_builtin callback_returns [alice_bob_document] new_StreamingJSONParser)
     = Some [alice, bob] \<and>
   map_option entries
     (parseStream Number_builtin JSON_parse_builtin callback_returns (fragments 3 alice_bob_document 0)
        new_StreamingJSONParser)
     = Some [alice, bob] \<and>
   map_option entries
     (parseStream Number_builtin Some callback_returns [alice_bob_document] new_StreamingJSONParser)
     = Some [str ''{"id":1,"name":"Alice"}'', str ''{"id":2,"name":"Bob"}''] \<and>
   map_option entries
     (parseStream Number_builtin Some callback_returns (fragments 3 alice_bob_document 0) new_StreamingJSONParser)
     = Some [str ''{"id":1,"name":"Alice"}'', str ''{"id":2,"name":"Bob"}'']\<close>
  by code_simp

section \<open>Dependence on the chunking (C1)\<close>

text \<open>
  C1 at the failing input: the document \<open>{"a":1,"results":[{"x":1}]}\<close> fed as one
  fragment emits its element; fed as \<open>{"a"\<close> and \<open>:1,"results":[{"x":1}]}\<close> it emits
  nothing. After the first fragment \<open>handleScanningForResults\<close> has consumed the key
  \<open>"a"\<close> and returned \<open>false\<close> for want of the colon; the next step then takes the
  colon for a key.
\<close>

theorem C1_chunking_changes_entries:
  \<open>map_option entries
     (parseStream Number_builtin JSON_parse_builtin callback_returns [str ''{"a":1,"results":[{"x":1}]}'']
        new_StreamingJSONParser)
     = Some [JObject [(str ''x'', JNumber (Numeric (str ''1'')))]] \<and>
   map_option entries
     (parseStream Number_builtin JSON_parse_builtin callback_returns [str ''{"a"'', str '':1,"results":[{"x":1}]}'']
        new_StreamingJSONParser)
     = Some []\<close>
  by code_simp

section \<open>Keys that are not strings (C6)\<close>

text \<open>
  C6 at the failing input: on \<open>{1:2}\<close> the parser skips the pair with the number key
  and reaches \<open>DONE\<close>; on \<open>{1:2,"results":[{"x":1}]}\<close> it goes on to emit the element.
  \<open>handleScanningForResults\<close> does not look at the type of the key token.
\<close>

theorem C6_number_key_accepted:
  \<open>map_option state
     (parseStream Number_builtin JSON_parse_builtin callback_returns [str ''{1:2}''] new_StreamingJSONParser)
     = Some DONE \<and>
   map_option entries
     (parseStream Number_builtin JSON_parse_builtin callback_returns [str ''{1:2,"results":[{"x":1}]}'']
        new_StreamingJSONParser)
     = Some [JObject [(str ''x'', JNumber (Numeric (str ''1'')))]]\<close>
  by code_simp

section \<open>Numbers with a minus sign (C7)\<close>

text \<open>
  C7 at the failing inputs: wherever the cursor stands on a \<open>-\<close>, whatever follows it
  and whatever \<open>Number\<close> does, the lexer returns no token and leaves the cursor in
  place; so on \<open>-1,\<close> it returns no token, although the run \<open>-1\<close> is followed by a
  comma, while on \<open>1,\<close> it returns the number. \<open>nextToken\<close> sends a leading \<open>-\<close> to
  \<open>readNumber\<close>, whose loop has no branch for it and stops at once with \<open>hasDigit\<close>
  false.
\<close>

theorem C7_minus_not_tokenized:
  "nextToken Number \<lparr>buffer = A @ ascii CHR ''-'' # B, position = length A\<rparr>
     = (None, \<lparr>buffer = A @ ascii CHR ''-'' # B, position = length A\<rparr>) \<and>
   nextToken Number_builtin \<lparr>buffer = str ''-1,'', position = 0\<rparr>
     = (None, \<lparr>buffer = str ''-1,'', position = 0\<rparr>) \<and>
   nextToken Number_builtin \<lparr>buffer = str ''1,'', position = 0\<rparr>
     = (Some (NumberToken (Numeric (str ''1''))), \<lparr>buffer = str ''1,'', position = 1\<rparr>)"
proof (intro conjI)
  let ?lx = "\<lparr>buffer = A @ ascii CHR ''-'' # B, position = length A\<rparr>"
  have "\<not> isWhitespace (ascii CHR ''-'')" by (simp add: isWhitespace_def ascii_def)
  then have sk: "skipWhitespace ?lx = ?lx" by (intro skipWhitespace_non_ws) simp_all
  have ne: "ascii CHR ''-'' \<noteq> ascii CHR ''{''" "ascii CHR ''-'' \<noteq> ascii CHR ''}''"
    "ascii CHR ''-'' \<noteq> ascii CHR ''[''" "ascii CHR ''-'' \<noteq> ascii CHR '']''"
    "ascii CHR ''-'' \<noteq> ascii CHR '':''" "ascii CHR ''-'' \<noteq> ascii CHR '',''"
    "ascii CHR ''-'' \<noteq> ascii CHR 0x22"
    by (simp_all add: ascii_def)
  have rn: "readNumber Number ?lx = (None, ?lx)"
    using readNumber_loop_minus [of A B] by (simp add: readNumber_def)
  show "nextToken Number ?lx = (None, ?lx)"
    unfolding nextToken_def sk Let_def using ne rn by simp
next
  show "nextToken Number_builtin \<lparr>buffer = str ''-1,'', position = 0\<rparr>
     = (None, \<lparr>buffer = str ''-1,'', position = 0\<rparr>)"
    by code_simp
next
  show "nextToken Number_builtin \<lparr>buffer = str ''1,'', position = 0\<rparr>
     = (Some (NumberToken (Numeric (str ''1''))), \<lparr>buffer = str ''1,'', position = 1\<rparr>)"
    by code_simp
qed

end
